theory Spec2Isabelle
  imports Main "HOL-Library.Monad_Syntax" "HOL-Library.AList"
begin

text \<open>
  A model of the regular expression matcher of slre.c: the analysis of the pattern (the
  scan of foo and setup_branch_points), the matcher (bar and doh), the driver loop of foo
  and slre_match, with the properties the specification states of them.
\<close>

section \<open>Data model of slre.c\<close>

text \<open>
  The pattern and the subject are byte strings. A C pointer into either is the offset of
  the byte it points to, so \<open>re + i\<close> and \<open>s + j\<close> are sums of integers. C \<open>int\<close>
  values are integers: every value the matcher computes is bounded by the length of one
  of the two strings.

  The reason slot of \<open>struct regex_info\<close> holds one of the message strings of the
  source.
\<close>

datatype reason =
    No_match
  | Unexpected_quantifier
  | Unbalanced_brackets
  | Internal_error
  | Invalid_metacharacter
  | Too_many_branches
  | Too_many_brackets

text \<open>
  \<open>struct bracket_pair\<close> and \<open>struct branch\<close>. The arrays \<open>brackets\<close> and
  \<open>branches\<close> of \<open>struct regex_info\<close> with their counters \<open>num_brackets\<close> and
  \<open>num_branches\<close> are lists: the counter is the length. The matcher only reads them;
  what it writes, the reason slot and the caller's capture array, is the record
  \<open>mstate\<close>. \<open>caps = None\<close> is the NULL pointer; otherwise the capture array is the
  association list of the slots written so far, slot \<open>k\<close> holding the pair (offset in
  the subject, length) of \<open>caps[k]\<close>. The array is the caller's, and the model gives it
  as many slots as the pattern has groups. The field \<open>flags\<close> is set to 0 and never
  read, and is left out.
\<close>

record bracket_pair =
  ptr :: int
  len :: int
  branches :: int
  num_branches :: int

record branch =
  bracket_index :: int
  schlong :: int

record regex_info =
  brackets :: "bracket_pair list"
  branch_tab :: "branch list"

record mstate =
  error_msg :: reason
  caps :: "(int \<times> int \<times> int) list option"

definition num_brackets :: "regex_info \<Rightarrow> int" where
  "num_brackets info = int (length (brackets info))"

definition info_num_branches :: "regex_info \<Rightarrow> int" where
  "info_num_branches info = int (length (branch_tab info))"

definition MAX_BRANCHES :: int where "MAX_BRANCHES = 100"
definition MAX_BRACKETS :: int where "MAX_BRACKETS = 100"

text \<open>
  Reading memory. The pattern is a C string: the byte at offset \<open>length pat\<close> is the
  terminating NUL, and a read anywhere else outside the string has no defined value
  (\<open>None\<close>). The subject has exactly \<open>s_len\<close> bytes. An array is read inside its
  filled part only.
\<close>

definition re_at :: "string \<Rightarrow> int \<Rightarrow> char option" where
  "re_at pat k =
     (if 0 \<le> k \<and> k < int (length pat) then Some (pat ! nat k)
      else if k = int (length pat) then Some (CHR 0x00)
      else None)"

definition s_at :: "string \<Rightarrow> int \<Rightarrow> char option" where
  "s_at subj k = (if 0 \<le> k \<and> k < int (length subj) then Some (subj ! nat k) else None)"

definition nth_opt :: "'a list \<Rightarrow> int \<Rightarrow> 'a option" where
  "nth_opt xs k = (if 0 \<le> k \<and> k < int (length xs) then Some (xs ! nat k) else None)"

text \<open>The macro \<open>FAIL_IF\<close>, once its condition holds: set the reason, return 0.\<close>

definition FAIL :: "reason \<Rightarrow> mstate \<Rightarrow> (int \<times> mstate) option" where
  "FAIL msg st = Some (0, st\<lparr>error_msg := msg\<rparr>)"

definition get_op_len :: "string \<Rightarrow> int \<Rightarrow> int option" where
  "get_op_len pat re = do { c \<leftarrow> re_at pat re; Some (if c = CHR 0x5C then 2 else 1) }"

definition is_quantifier :: "string \<Rightarrow> int \<Rightarrow> bool option" where
  "is_quantifier pat re =
     do { c \<leftarrow> re_at pat re; Some (c = CHR ''*'' \<or> c = CHR ''+'' \<or> c = CHR ''?'') }"

text \<open>\<open>isspace\<close> and \<open>isdigit\<close> of the C locale, on the byte read as unsigned char.\<close>

definition isspace :: "char \<Rightarrow> bool" where
  "isspace c = (c = CHR '' '' \<or> (9 \<le> (of_char c :: nat) \<and> (of_char c :: nat) \<le> 13))"

definition isdigit :: "char \<Rightarrow> bool" where
  "isdigit c = (48 \<le> (of_char c :: nat) \<and> (of_char c :: nat) \<le> 57)"

definition is_escapable :: "char \<Rightarrow> bool" where
  "is_escapable c = (c \<in> set ''+?*()^$.[]'' \<or> c = CHR 0x5C)"

text \<open>The cases of the switch in bar that call nothing: the result is the failure
  reason, or the number of subject bytes the atom consumed.\<close>

definition simple_atom :: "string \<Rightarrow> string \<Rightarrow> int \<Rightarrow> int \<Rightarrow> int \<Rightarrow> (reason + int) option" where
  "simple_atom pat subj rei sj j =
     do {
       c \<leftarrow> re_at pat rei;
       if c = CHR 0x5C then
         do {
           m \<leftarrow> re_at pat (rei + 1);
           if m = CHR ''S'' then
             do { x \<leftarrow> s_at subj sj; Some (if isspace x then Inl No_match else Inr 1) }
           else if m = CHR ''s'' then
             do { x \<leftarrow> s_at subj sj; Some (if \<not> isspace x then Inl No_match else Inr 1) }
           else if m = CHR ''d'' then
             do { x \<leftarrow> s_at subj sj; Some (if \<not> isdigit x then Inl No_match else Inr 1) }
           else if is_escapable m then
             do { x \<leftarrow> s_at subj sj; Some (if m \<noteq> x then Inl No_match else Inr 1) }
           else Some (Inl Invalid_metacharacter)
         }
       else if c = CHR ''^'' then Some (if j \<noteq> 0 then Inl No_match else Inr 0)
       else if c = CHR ''|'' then Some (Inl Internal_error)
       else if c = CHR ''$'' then Some (Inl No_match)
       else if c = CHR ''.'' then Some (Inr 1)
       else do { x \<leftarrow> s_at subj sj; Some (if c \<noteq> x then Inl No_match else Inr 1) }
     }"

text \<open>The start and the length of alternative \<open>i\<close> of a bracket pair, as doh
  computes them from the branch table.\<close>

definition alt_ptr :: "regex_info \<Rightarrow> bracket_pair \<Rightarrow> int \<Rightarrow> int option" where
  "alt_ptr info b i =
     (if i = 0 then Some (ptr b)
      else map_option (\<lambda>x. schlong x + 1) (nth_opt (branch_tab info) (branches b + i - 1)))"

definition alt_len :: "regex_info \<Rightarrow> bracket_pair \<Rightarrow> int \<Rightarrow> int \<Rightarrow> int option" where
  "alt_len info b i p =
     (if num_branches b = 0 then Some (len b)
      else if i = num_branches b then Some (ptr b + len b - p)
      else map_option (\<lambda>x. schlong x - p) (nth_opt (branch_tab info) (branches b + i)))"

text \<open>
  The head of the quantifier case of bar: whether a \<open>?\<close> follows the quantifier, and
  \<open>ni\<close>, the offset in \<open>re\<close> of the code after the quantifier.
\<close>

definition quant_tail :: "string \<Rightarrow> int \<Rightarrow> int \<Rightarrow> int \<Rightarrow> int \<Rightarrow> (bool \<times> int) option" where
  "quant_tail pat re re_len i step =
     do {
       next_step \<leftarrow> get_op_len pat (re + i + step);
       c2 \<leftarrow> (if i + step + 1 < re_len then re_at pat (re + i + step + 1) else Some (CHR 0x00));
       let non_greedy = (i + step + 1 < re_len \<and> c2 = CHR ''?'');
       Some (non_greedy, i + step + (if non_greedy then next_step + 1 else next_step))
     }"

section \<open>The matcher: bar and doh\<close>

text \<open>
  bar and doh call each other, and bar calls itself inside its loops. They are one
  function \<open>run\<close> over the three loops of the source:
  \<^item> \<open>Bar_loop re re_len s s_len bi i j\<close> is the \<open>for\<close> loop of bar at the head of an
    iteration, with the current values of \<open>bi\<close>, \<open>i\<close> and \<open>j\<close>;
  \<^item> \<open>Quant_loop re re_len s s_len bi i step ni non_greedy j2 nj\<close> is the \<open>while\<close> loop
    of the quantifiers \<open>+\<close> and \<open>*\<close>;
  \<^item> \<open>Doh_loop s s_len bi i\<close> is the \<open>do ... while\<close> loop of doh.
  The value \<open>None\<close> stands for a call with no defined result: it does not return, or
  it reads outside the pattern, the subject or the tables.
\<close>

datatype call =
    Bar_loop int int int int int int int
  | Quant_loop int int int int int int int int bool int int
  | Doh_loop int int int int

partial_function (option) run ::
  "string \<Rightarrow> string \<Rightarrow> regex_info \<Rightarrow> call \<Rightarrow> mstate \<Rightarrow> (int \<times> mstate) option"
where
  "run pat subj info c st =
    (case c of
      Bar_loop re re_len s s_len bi i j \<Rightarrow>
        if i < re_len \<and> j < s_len then
          do {
            step \<leftarrow> get_op_len pat (re + i);
            q \<leftarrow> is_quantifier pat (re + i);
            if q then FAIL Unexpected_quantifier st
            else if step \<le> 0 then FAIL Internal_error st
            else do {
              la \<leftarrow> (if i + step < re_len then is_quantifier pat (re + i + step) else Some False);
              c1 \<leftarrow> (if la then re_at pat (re + i + step) else Some (CHR 0x00));
              if la \<and> c1 = CHR ''?'' then
                do {
                  (n, st1) \<leftarrow> run pat subj info (Bar_loop (re + i) step (s + j) (s_len - j) bi 0 0) st;
                  run pat subj info (Bar_loop re re_len s s_len bi (i + 1 + step) (j + n)) st1
                }
              else if la \<and> (c1 = CHR ''+'' \<or> c1 = CHR ''*'') then
                do {
                  (non_greedy, ni) \<leftarrow> quant_tail pat re re_len i step;
                  (nj, st1) \<leftarrow> run pat subj info
                     (Quant_loop re re_len s s_len bi i step ni non_greedy j 0) st;
                  if c1 = CHR ''+'' \<and> nj = 0 then FAIL No_match st1 else Some (nj, st1)
                }
              else do {
                c0 \<leftarrow> re_at pat (re + i);
                if c0 = CHR ''('' then
                  (if bi + 1 \<ge> num_brackets info then FAIL Internal_error st
                   else do {
                     (n, st1) \<leftarrow> run pat subj info (Doh_loop (s + j) (s_len - j) (bi + 1) 0) st;
                     if n \<le> 0 then FAIL No_match st1
                     else do {
                       b \<leftarrow> nth_opt (brackets info) (bi + 1);
                       run pat subj info
                         (Bar_loop re re_len s s_len (bi + 1) (i + (len b + 1) + step) (j + n))
                         (st1\<lparr>caps := map_option (AList.update bi (s + j, n)) (caps st1)\<rparr>)
                     }
                   })
                else do {
                  r \<leftarrow> simple_atom pat subj (re + i) (s + j) j;
                  case r of
                    Inl msg \<Rightarrow> FAIL msg st
                  | Inr n \<Rightarrow> run pat subj info (Bar_loop re re_len s s_len bi (i + step) (j + n)) st
                }
              }
            }
          }
        else if i < re_len then
          do {
            c0 \<leftarrow> re_at pat (re + i);
            if \<not> (c0 = CHR ''$'' \<and> i + 1 = re_len) then FAIL No_match st else Some (j, st)
          }
        else Some (j, st)
    | Quant_loop re re_len s s_len bi i step ni non_greedy j2 nj \<Rightarrow>
        do {
          (n1, st1) \<leftarrow> run pat subj info (Bar_loop (re + i) step (s + j2) (s_len - j2) bi 0 0) st;
          if n1 > 0 then
            do {
              (nj', st2) \<leftarrow>
                (if ni \<ge> re_len then Some (j2 + n1, st1)
                 else do {
                   (n2, st2) \<leftarrow> run pat subj info
                      (Bar_loop (re + ni) (re_len - ni) (s + j2 + n1) (s_len - (j2 + n1)) bi 0 0) st1;
                   Some (if n2 > 0 then j2 + n1 + n2 else nj, st2)
                 });
              if nj' > 0 \<and> non_greedy then Some (nj', st2)
              else run pat subj info
                     (Quant_loop re re_len s s_len bi i step ni non_greedy (j2 + n1) nj') st2
            }
          else Some (nj, st1)
        }
    | Doh_loop s s_len bi i \<Rightarrow>
        do {
          b \<leftarrow> nth_opt (brackets info) bi;
          p \<leftarrow> alt_ptr info b i;
          l \<leftarrow> alt_len info b i p;
          (result, st1) \<leftarrow> run pat subj info (Bar_loop p l s s_len bi 0 0) st;
          if i < num_branches b then run pat subj info (Doh_loop s s_len bi (i + 1)) st1
          else Some (result, st1)
        })"


declare run.simps [code]

definition bar ::
  "string \<Rightarrow> string \<Rightarrow> regex_info \<Rightarrow> int \<Rightarrow> int \<Rightarrow> int \<Rightarrow> int \<Rightarrow> int \<Rightarrow> mstate
     \<Rightarrow> (int \<times> mstate) option" where
  "bar pat subj info re re_len s s_len bi st =
     run pat subj info (Bar_loop re re_len s s_len bi 0 0) st"

definition doh ::
  "string \<Rightarrow> string \<Rightarrow> regex_info \<Rightarrow> int \<Rightarrow> int \<Rightarrow> int \<Rightarrow> mstate \<Rightarrow> (int \<times> mstate) option" where
  "doh pat subj info s s_len bi st = run pat subj info (Doh_loop s s_len bi 0) st"

section \<open>setup_branch_points\<close>

text \<open>
  The sort of the source: for every \<open>i\<close>, for every \<open>j > i\<close>, entries \<open>i\<close> and \<open>j\<close>
  are swapped when the first has the greater \<open>bracket_index\<close>. \<open>n\<close> is
  \<open>info->num_branches\<close>, the length of the list.
\<close>

function sort_inner :: "nat \<Rightarrow> branch list \<Rightarrow> nat \<Rightarrow> nat \<Rightarrow> branch list" where
  "sort_inner n bs i j =
     (if j < n then
        sort_inner n
          (if bracket_index (bs ! i) > bracket_index (bs ! j)
           then bs[i := bs ! j, j := bs ! i] else bs)
          i (j + 1)
      else bs)"
  by pat_completeness auto
termination
  by (relation "measure (\<lambda>(n, bs, i, j). n - j)") auto

function sort_outer :: "nat \<Rightarrow> branch list \<Rightarrow> nat \<Rightarrow> branch list" where
  "sort_outer n bs i =
     (if i < n then sort_outer n (sort_inner n bs i (i + 1)) (i + 1) else bs)"
  by pat_completeness auto
termination
  by (relation "measure (\<lambda>(n, bs, i). n - i)") auto

text \<open>
  The second loop: bracket \<open>i\<close> gets \<open>branches = j\<close>, and \<open>num_branches\<close> counts the
  entries from \<open>j\<close> on whose \<open>bracket_index\<close> is \<open>i\<close>.
\<close>

function count_branches :: "branch list \<Rightarrow> nat \<Rightarrow> nat \<Rightarrow> nat" where
  "count_branches bs i j =
     (if j < length bs \<and> bracket_index (bs ! j) = int i then count_branches bs i (j + 1) else j)"
  by pat_completeness auto
termination
  by (relation "measure (\<lambda>(bs, i, j). length bs - j)") auto

function assign_branches :: "branch list \<Rightarrow> bracket_pair list \<Rightarrow> nat \<Rightarrow> nat \<Rightarrow> bracket_pair list" where
  "assign_branches bs bks i j =
     (if i < length bks then
        (let j' = count_branches bs i j in
         assign_branches bs
           (bks[i := (bks ! i)\<lparr>branches := int j, num_branches := int j' - int j\<rparr>]) (i + 1) j')
      else bks)"
  by pat_completeness auto
termination
  by (relation "measure (\<lambda>(bs, bks, i, j). length bks - i)") auto

definition setup_branch_points :: "regex_info \<Rightarrow> regex_info" where
  "setup_branch_points info =
     (let bs = sort_outer (length (branch_tab info)) (branch_tab info) 0
      in \<lparr>brackets = assign_branches bs (brackets info) 0 0, branch_tab = bs\<rparr>)"

section \<open>foo: the pattern scan and the driver\<close>

text \<open>
  One iteration of the scan at offset \<open>i\<close>: the new depth and tables, or the reason of
  the \<open>FAIL_IF\<close> that fired. The fields \<open>branches\<close> and \<open>num_branches\<close> of a new
  bracket pair are not initialised by the source; setup_branch_points sets both for every
  pair before anything reads them, and they are 0 here until then. The array \<open>stack\<close> of
  the source is written and never read, and is left out.
\<close>

definition scan_step ::
  "string \<Rightarrow> int \<Rightarrow> int \<Rightarrow> regex_info \<Rightarrow> (reason + int \<times> regex_info) option" where
  "scan_step pat i depth info =
     do {
       c \<leftarrow> re_at pat i;
       if c = CHR ''|'' then
         (if info_num_branches info \<ge> MAX_BRANCHES then Some (Inl Too_many_branches)
          else do {
            lb \<leftarrow> nth_opt (brackets info) (num_brackets info - 1);
            Some (Inr (depth, info\<lparr>branch_tab := branch_tab info @
              [\<lparr>bracket_index = (if len lb = - 1 then num_brackets info - 1 else depth),
                schlong = i\<rparr>]\<rparr>))
          })
       else if c = CHR ''('' then
         (if num_brackets info \<ge> MAX_BRACKETS then Some (Inl Too_many_brackets)
          else Some (Inr (depth + 1, info\<lparr>brackets := brackets info @
              [\<lparr>ptr = i + 1, len = - 1, branches = 0, num_branches = 0\<rparr>]\<rparr>)))
       else if c = CHR '')'' then
         do {
           lb \<leftarrow> nth_opt (brackets info) (num_brackets info - 1);
           let ind = (if len lb = - 1 then num_brackets info - 1 else depth);
           b \<leftarrow> nth_opt (brackets info) ind;
           let info' = info\<lparr>brackets := (brackets info)[nat ind := b\<lparr>len := i - ptr b\<rparr>]\<rparr>;
           if depth - 1 < 0 then Some (Inl Unbalanced_brackets)
           else do {
             p \<leftarrow> (if i > 0 then re_at pat (i - 1) else Some (CHR 0x00));
             if i > 0 \<and> p = CHR ''('' then Some (Inl No_match)
             else Some (Inr (depth - 1, info'))
           }
         }
       else Some (Inr (depth, info))
     }"

function scan_loop ::
  "string \<Rightarrow> int \<Rightarrow> int \<Rightarrow> int \<Rightarrow> regex_info \<Rightarrow> (reason + int \<times> regex_info) option" where
  "scan_loop pat re_len i depth info =
     (if i < re_len then
        (case get_op_len pat i of
           None \<Rightarrow> None
         | Some step \<Rightarrow>
            (case scan_step pat i depth info of
               None \<Rightarrow> None
             | Some (Inl msg) \<Rightarrow> Some (Inl msg)
             | Some (Inr (depth', info')) \<Rightarrow> scan_loop pat re_len (i + step) depth' info'))
      else Some (Inr (depth, info)))"
  by pat_completeness auto
termination
  by (relation "measure (\<lambda>(pat, re_len, i, depth, info). nat (re_len - i))")
     (auto simp: get_op_len_def split: bind_splits if_splits)

text \<open>
  The driver loop of foo: \<open>i\<close> is the anchor offset, \<open>result\<close> the value of the
  variable \<open>result\<close> when the loop condition is tested.
\<close>

function match_loop ::
  "string \<Rightarrow> string \<Rightarrow> regex_info \<Rightarrow> int \<Rightarrow> int \<Rightarrow> int \<Rightarrow> mstate \<Rightarrow> (int \<times> mstate) option" where
  "match_loop pat subj info s_len i result st =
     (if i < s_len then
        (case doh pat subj info i (s_len - i) 0 st of
           None \<Rightarrow> None
         | Some (r, st1) \<Rightarrow>
            (case re_at pat 0 of
               None \<Rightarrow> None
             | Some c \<Rightarrow>
                if r > 0 \<or> c = CHR ''^'' then Some (r + i, st1)
                else match_loop pat subj info s_len (i + 1) r st1))
      else Some (result, st))"
  by pat_completeness auto
termination
  by (relation "measure (\<lambda>(pat, subj, info, s_len, i, result, st). nat (s_len - i))") auto

text \<open>The tables when the scan starts: bracket 0 spans the whole pattern.\<close>

definition scan_init :: "int \<Rightarrow> regex_info" where
  "scan_init re_len =
     \<lparr>brackets = [\<lparr>ptr = 0, len = re_len, branches = 0, num_branches = 0\<rparr>], branch_tab = []\<rparr>"

text \<open>The first half of foo: bracket 0, the scan, the balance check, the branch points.\<close>

definition analyse :: "string \<Rightarrow> int \<Rightarrow> (reason + regex_info) option" where
  "analyse pat re_len =
     (case scan_loop pat re_len 0 0 (scan_init re_len) of
        None \<Rightarrow> None
      | Some (Inl msg) \<Rightarrow> Some (Inl msg)
      | Some (Inr (depth, info)) \<Rightarrow>
          if depth \<noteq> 0 then Some (Inl Unbalanced_brackets)
          else Some (Inr (setup_branch_points info)))"

definition foo :: "string \<Rightarrow> int \<Rightarrow> string \<Rightarrow> int \<Rightarrow> mstate \<Rightarrow> (int \<times> mstate) option" where
  "foo pat re_len subj s_len st =
     (case analyse pat re_len of
        None \<Rightarrow> None
      | Some (Inl msg) \<Rightarrow> FAIL msg st
      | Some (Inr info) \<Rightarrow> match_loop pat subj info s_len 0 0 st)"

text \<open>
  slre_match: the subject is its \<open>s_len\<close> bytes, \<open>cps\<close> the capture array (\<open>None\<close> for
  NULL). The result is the return value with the final state, whose reason slot is what
  the source stores in \<open>*error_msg\<close>.
\<close>

definition slre_match ::
  "string \<Rightarrow> string \<Rightarrow> (int \<times> int \<times> int) list option \<Rightarrow> (int \<times> mstate) option" where
  "slre_match regexp subj cps =
     foo regexp (int (length regexp)) subj (int (length subj))
       \<lparr>error_msg = No_match, caps = cps\<rparr>"

text \<open>A call without capture array: the return value and the reason.\<close>

definition slre_result :: "string \<Rightarrow> string \<Rightarrow> (int \<times> reason) option" where
  "slre_result regexp subj = map_option (\<lambda>(r, st). (r, error_msg st)) (slre_match regexp subj None)"

section \<open>Invariants\<close>

text \<open>
  What the proofs keep true. A window \<open>re[0 .. re_len)\<close> of the pattern is \<open>win_ok\<close>
  when it is empty or lies inside the pattern; a window of the subject is \<open>sub_ok\<close> when
  it lies inside the subject. \<open>info_ok\<close> is what analysis establishes of the tables,
  \<open>scan_ok\<close> what the scan keeps at offset \<open>i\<close>, \<open>call_ok\<close> what every call of the matcher
  satisfies, and \<open>call_order\<close> the order in which the calls of the matcher decrease.
\<close>

definition win_ok :: "string \<Rightarrow> int \<Rightarrow> int \<Rightarrow> bool" where
  "win_ok pat re re_len = (0 \<le> re \<and> (re_len \<le> 0 \<or> re + re_len \<le> int (length pat)))"

definition sub_ok :: "string \<Rightarrow> int \<Rightarrow> int \<Rightarrow> bool" where
  "sub_ok subj s s_len = (0 \<le> s \<and> 0 \<le> s_len \<and> s + s_len \<le> int (length subj))"

definition bracket_ok :: "string \<Rightarrow> regex_info \<Rightarrow> bracket_pair \<Rightarrow> bool" where
  "bracket_ok pat info b =
     (0 \<le> ptr b \<and> - 1 \<le> len b \<and> ptr b + len b \<le> int (length pat) \<and>
      0 \<le> branches b \<and> 0 \<le> num_branches b \<and>
      branches b + num_branches b \<le> int (length (branch_tab info)))"

definition branch_ok :: "string \<Rightarrow> branch \<Rightarrow> bool" where
  "branch_ok pat br = (0 \<le> schlong br \<and> schlong br < int (length pat))"

definition info_ok :: "string \<Rightarrow> regex_info \<Rightarrow> bool" where
  "info_ok pat info =
     (brackets info \<noteq> [] \<and> list_all (bracket_ok pat info) (brackets info) \<and>
      list_all (branch_ok pat) (branch_tab info))"

fun call_ok :: "string \<Rightarrow> string \<Rightarrow> regex_info \<Rightarrow> call \<Rightarrow> bool" where
  "call_ok pat subj info (Bar_loop re re_len s s_len bi i j) =
     (win_ok pat re re_len \<and> sub_ok subj s s_len \<and> 0 \<le> bi \<and> bi < num_brackets info \<and>
      0 \<le> i \<and> 0 \<le> j \<and> j \<le> s_len)"
| "call_ok pat subj info (Quant_loop re re_len s s_len bi i step ni non_greedy j2 nj) =
     (win_ok pat re re_len \<and> sub_ok subj s s_len \<and> 0 \<le> bi \<and> bi < num_brackets info \<and>
      0 \<le> i \<and> 1 \<le> step \<and> i + step < re_len \<and> i + step < ni \<and>
      0 \<le> j2 \<and> j2 \<le> s_len \<and> 0 \<le> nj \<and> nj \<le> s_len)"
| "call_ok pat subj info (Doh_loop s s_len bi i) =
     (sub_ok subj s s_len \<and> 0 \<le> bi \<and> bi < num_brackets info \<and> 0 \<le> i \<and>
      (case nth_opt (brackets info) bi of None \<Rightarrow> False | Some b \<Rightarrow> i \<le> num_branches b))"

fun call_s_len :: "call \<Rightarrow> int" where
  "call_s_len (Bar_loop re re_len s s_len bi i j) = s_len"
| "call_s_len (Quant_loop re re_len s s_len bi i step ni non_greedy j2 nj) = s_len"
| "call_s_len (Doh_loop s s_len bi i) = s_len"

definition in_range :: "(int \<times> mstate) option \<Rightarrow> int \<Rightarrow> bool" where
  "in_range res n = (case res of None \<Rightarrow> False | Some (r, st) \<Rightarrow> 0 \<le> r \<and> r \<le> n)"

fun call_bi :: "call \<Rightarrow> int" where
  "call_bi (Bar_loop re re_len s s_len bi i j) = bi"
| "call_bi (Quant_loop re re_len s s_len bi i step ni non_greedy j2 nj) = bi"
| "call_bi (Doh_loop s s_len bi i) = bi"

fun call_is_doh :: "call \<Rightarrow> nat" where
  "call_is_doh (Doh_loop s s_len bi i) = 1"
| "call_is_doh c = 0"

fun call_size :: "regex_info \<Rightarrow> call \<Rightarrow> nat" where
  "call_size info (Bar_loop re re_len s s_len bi i j) = nat re_len"
| "call_size info (Quant_loop re re_len s s_len bi i step ni non_greedy j2 nj) = nat re_len"
| "call_size info (Doh_loop s s_len bi i) =
     (case nth_opt (brackets info) bi of None \<Rightarrow> 0 | Some b \<Rightarrow> nat (num_branches b - i))"

fun call_is_bar :: "call \<Rightarrow> nat" where
  "call_is_bar (Bar_loop re re_len s s_len bi i j) = 1"
| "call_is_bar c = 0"

fun call_left :: "call \<Rightarrow> nat" where
  "call_left (Bar_loop re re_len s s_len bi i j) = nat (re_len - i)"
| "call_left (Quant_loop re re_len s s_len bi i step ni non_greedy j2 nj) = nat (s_len - j2)"
| "call_left (Doh_loop s s_len bi i) = 0"

definition call_order :: "regex_info \<Rightarrow> (call \<times> call) set" where
  "call_order info =
     measures [\<lambda>c. nat (num_brackets info - call_bi c), call_is_doh, call_size info,
               call_is_bar, call_left]"

definition span_ok :: "string \<Rightarrow> bracket_pair \<Rightarrow> bool" where
  "span_ok pat b = (0 \<le> ptr b \<and> - 1 \<le> len b \<and> ptr b + len b \<le> int (length pat))"

definition scan_ok :: "string \<Rightarrow> int \<Rightarrow> int \<Rightarrow> regex_info \<Rightarrow> bool" where
  "scan_ok pat i depth info =
     (0 \<le> depth \<and> depth < int (length (brackets info)) \<and>
      list_all (\<lambda>b. span_ok pat b \<and> ptr b \<le> i) (brackets info) \<and>
      list_all (branch_ok pat) (branch_tab info))"

definition pre_ok :: "string \<Rightarrow> regex_info \<Rightarrow> bool" where
  "pre_ok pat info =
     (brackets info \<noteq> [] \<and> list_all (span_ok pat) (brackets info) \<and>
      list_all (branch_ok pat) (branch_tab info))"

definition assigned_ok :: "string \<Rightarrow> nat \<Rightarrow> bracket_pair \<Rightarrow> bool" where
  "assigned_ok pat n b =
     (span_ok pat b \<and> 0 \<le> branches b \<and> 0 \<le> num_branches b \<and>
      branches b + num_branches b \<le> int n)"

text \<open>
  For the sort: the key of entry \<open>k\<close>, and the state of the outer loop at \<open>i\<close>, where
  each of the first \<open>i\<close> entries is at most every entry behind it.
\<close>

definition branch_key :: "branch list \<Rightarrow> nat \<Rightarrow> int" where
  "branch_key bs k = bracket_index (bs ! k)"

definition prefix_done :: "branch list \<Rightarrow> nat \<Rightarrow> bool" where
  "prefix_done bs i =
     (\<forall>a b. a < i \<and> a < b \<and> b < length bs \<longrightarrow> branch_key bs a \<le> branch_key bs b)"

section \<open>Functions the statements are written with\<close>

text \<open>
  The alternatives of a bracket pair as windows (start, length) of the pattern: \<open>p\<close> is
  the start of the first one, \<open>e\<close> the end of the last one, and the list holds the
  offsets of the branches between them.
\<close>

fun alt_windows :: "int \<Rightarrow> int \<Rightarrow> int list \<Rightarrow> (int \<times> int) list" where
  "alt_windows p e [] = [(p, e - p)]"
| "alt_windows p e (x # xs) = (p, x - p) # alt_windows (x + 1) e xs"

text \<open>
  bar on each window of a list, on the same subject window, one after the other; the state
  is threaded, and the result is the result of the last call (\<open>r\<close> for no window).
\<close>

fun bar_each ::
  "string \<Rightarrow> string \<Rightarrow> regex_info \<Rightarrow> int \<Rightarrow> int \<Rightarrow> int \<Rightarrow> (int \<times> int) list \<Rightarrow> int \<Rightarrow> mstate
     \<Rightarrow> (int \<times> mstate) option" where
  "bar_each pat subj info s s_len bi [] r st = Some (r, st)"
| "bar_each pat subj info s s_len bi (w # ws) r st =
     do {
       (r', st1) \<leftarrow> bar pat subj info (fst w) (snd w) s s_len bi st;
       bar_each pat subj info s s_len bi ws r' st1
     }"

text \<open>
  The offsets in the entries \<open>branches b\<close>, ..., \<open>branches b + num_branches b - 1\<close> of the
  branch table, in the order of the table.
\<close>

definition branch_offsets :: "regex_info \<Rightarrow> bracket_pair \<Rightarrow> int list option" where
  "branch_offsets info b =
     (if 0 \<le> branches b \<and> 0 \<le> num_branches b \<and>
         branches b + num_branches b \<le> int (length (branch_tab info))
      then Some (map schlong (take (nat (num_branches b)) (drop (nat (branches b)) (branch_tab info))))
      else None)"


text \<open>
  One iteration of the scan that does not fail, as a relation between the values of
  (\<open>i\<close>, \<open>depth\<close>, tables) before and after it, and the states the scan of a pattern
  comes through.
\<close>

definition scan_next ::
  "string \<Rightarrow> int \<Rightarrow> int \<times> int \<times> regex_info \<Rightarrow> int \<times> int \<times> regex_info \<Rightarrow> bool" where
  "scan_next pat re_len a b =
     (case a of (i, depth, info) \<Rightarrow>
      case b of (i', depth', info') \<Rightarrow>
        i < re_len \<and>
        (case get_op_len pat i of
           None \<Rightarrow> False
         | Some step \<Rightarrow>
             i' = i + step \<and> scan_step pat i depth info = Some (Inr (depth', info'))))"

definition scan_reaches :: "string \<Rightarrow> int \<times> int \<times> regex_info \<Rightarrow> bool" where
  "scan_reaches pat a =
     (scan_next pat (int (length pat)))\<^sup>*\<^sup>* (0, 0, scan_init (int (length pat))) a"

text \<open>
  The branch table of a pattern as pairs (bracket_index, offset): as the scan leaves it,
  and after analysis.
\<close>

definition scanned_branch_order :: "string \<Rightarrow> (reason + (int \<times> int) list) option" where
  "scanned_branch_order pat =
     map_option
       (map_sum id (\<lambda>(depth, info). map (\<lambda>b. (bracket_index b, schlong b)) (branch_tab info)))
       (scan_loop pat (int (length pat)) 0 0 (scan_init (int (length pat))))"


definition branch_order :: "string \<Rightarrow> (reason + (int \<times> int) list) option" where
  "branch_order pat =
     map_option (map_sum id (\<lambda>info. map (\<lambda>b. (bracket_index b, schlong b)) (branch_tab info)))
       (analyse pat (int (length pat)))"

section \<open>Auxiliary lemmas\<close>

lemma re_at_defined: "0 \<le> k \<Longrightarrow> k \<le> int (length pat) \<Longrightarrow> \<exists>c. re_at pat k = Some c"
  by (simp add: re_at_def)

lemma is_quantifier_defined:
  "0 \<le> k \<Longrightarrow> k \<le> int (length pat) \<Longrightarrow> \<exists>b. is_quantifier pat k = Some b"
  using re_at_defined[of k pat] by (auto simp: is_quantifier_def)

lemma bind_pair_Some [simp]: "(m \<bind> (\<lambda>(r, st). Some (r, st))) = (m :: ('a \<times> 'b) option)"
  by (cases m) auto



declare sort_inner.simps [simp del] sort_outer.simps [simp del] count_branches.simps [simp del]
  assign_branches.simps [simp del] scan_loop.simps [simp del] match_loop.simps [simp del]

lemma wf_call_order: "wf (call_order info)"
  by (simp add: call_order_def)

lemma in_rangeI: "res = Some (r, st) \<Longrightarrow> 0 \<le> r \<Longrightarrow> r \<le> n \<Longrightarrow> in_range res n"
  by (simp add: in_range_def)

lemma in_rangeE:
  assumes "in_range res n"
  obtains r st where "res = Some (r, st)" and "0 \<le> r" and "r \<le> n"
  using assms by (auto simp: in_range_def split: option.splits)

lemma in_range_FAIL: "0 \<le> n \<Longrightarrow> in_range (FAIL msg st) n"
  by (simp add: in_range_def FAIL_def)

lemma re_at_in_window:
  assumes "win_ok pat re re_len" and "0 \<le> k" and "k \<le> re_len" and "0 < re_len"
  shows "\<exists>c. re_at pat (re + k) = Some c"
  using assms by (intro re_at_defined) (auto simp: win_ok_def)

lemma s_at_in_window:
  assumes "sub_ok subj s s_len" and "0 \<le> j" and "j < s_len"
  shows "\<exists>c. s_at subj (s + j) = Some c"
  using assms by (auto simp: sub_ok_def s_at_def)

lemma simple_atom_cases:
  assumes "re_at pat rei = Some c" and "re_at pat (rei + 1) = Some m" and "s_at subj sj = Some x"
  shows "\<exists>r. simple_atom pat subj rei sj j = Some r \<and>
            (case r of Inl msg \<Rightarrow> True | Inr n \<Rightarrow> n = 0 \<or> n = 1)"
  by (simp add: simple_atom_def assms)

lemma simple_atom_defined:
  assumes "win_ok pat re re_len" and "0 \<le> i" and "i < re_len"
    and "sub_ok subj s s_len" and "0 \<le> j" and "j < s_len"
  shows "\<exists>r. simple_atom pat subj (re + i) (s + j) j = Some r \<and>
            (case r of Inl msg \<Rightarrow> True | Inr n \<Rightarrow> n = 0 \<or> n = 1)"
proof -
  obtain c where c: "re_at pat (re + i) = Some c"
    using re_at_in_window[OF assms(1), of i] assms(2,3) by auto
  obtain m where m: "re_at pat (re + i + 1) = Some m"
    using re_at_in_window[OF assms(1), of "i + 1"] assms(2,3) by (auto simp: add.assoc)
  obtain x where x: "s_at subj (s + j) = Some x"
    using s_at_in_window[OF assms(4-6)] by auto
  show ?thesis
    by (rule simple_atom_cases[OF c m x])
qed

lemma bar_loop_exit:
  assumes "\<not> (i < re_len \<and> j < s_len)"
  shows "run pat subj info (Bar_loop re re_len s s_len bi i j) st =
     (if i < re_len then
        do {
          c0 \<leftarrow> re_at pat (re + i);
          if \<not> (c0 = CHR ''$'' \<and> i + 1 = re_len) then FAIL No_match st else Some (j, st)
        }
      else Some (j, st))"
  using assms by (subst run.simps) auto

lemma bar_loop_bare_quantifier:
  assumes "i < re_len" and "j < s_len"
    and "get_op_len pat (re + i) = Some step" and "is_quantifier pat (re + i) = Some True"
  shows "run pat subj info (Bar_loop re re_len s s_len bi i j) st = FAIL Unexpected_quantifier st"
  by (subst run.simps) (simp add: assms)

lemma bar_loop_optional:
  assumes "i < re_len" and "j < s_len"
    and "get_op_len pat (re + i) = Some step" and "is_quantifier pat (re + i) = Some False"
    and "0 < step" and "i + step < re_len" and "re_at pat (re + i + step) = Some (CHR ''?'')"
  shows "run pat subj info (Bar_loop re re_len s s_len bi i j) st =
     do {
       (n, st1) \<leftarrow> run pat subj info (Bar_loop (re + i) step (s + j) (s_len - j) bi 0 0) st;
       run pat subj info (Bar_loop re re_len s s_len bi (i + 1 + step) (j + n)) st1
     }"
proof -
  have la: "is_quantifier pat (re + i + step) = Some True"
    using assms(7) by (simp add: is_quantifier_def)
  show ?thesis
    using assms(5) by (subst run.simps) (simp add: assms(1-4,6,7) la)
qed

lemma bar_loop_repeat:
  assumes "i < re_len" and "j < s_len"
    and "get_op_len pat (re + i) = Some step" and "is_quantifier pat (re + i) = Some False"
    and "0 < step" and "i + step < re_len" and "re_at pat (re + i + step) = Some q"
    and "q = CHR ''+'' \<or> q = CHR ''*''"
  shows "run pat subj info (Bar_loop re re_len s s_len bi i j) st =
     do {
       (non_greedy, ni) \<leftarrow> quant_tail pat re re_len i step;
       (nj, st1) \<leftarrow> run pat subj info
          (Quant_loop re re_len s s_len bi i step ni non_greedy j 0) st;
       if q = CHR ''+'' \<and> nj = 0 then FAIL No_match st1 else Some (nj, st1)
     }"
proof -
  have la: "is_quantifier pat (re + i + step) = Some True"
    using assms(7,8) by (auto simp: is_quantifier_def)
  have nq: "q \<noteq> CHR ''?''"
    using assms(8) by auto
  show ?thesis
    using assms(5,8) nq by (subst run.simps) (auto simp add: assms(1-4,6,7) la)
qed

lemma bar_loop_group:
  assumes "i < re_len" and "j < s_len"
    and "get_op_len pat (re + i) = Some step" and "is_quantifier pat (re + i) = Some False"
    and "0 < step"
    and "(if i + step < re_len then is_quantifier pat (re + i + step) else Some False) = Some False"
    and "re_at pat (re + i) = Some (CHR ''('')"
  shows "run pat subj info (Bar_loop re re_len s s_len bi i j) st =
     (if bi + 1 \<ge> num_brackets info then FAIL Internal_error st
      else do {
        (n, st1) \<leftarrow> run pat subj info (Doh_loop (s + j) (s_len - j) (bi + 1) 0) st;
        if n \<le> 0 then FAIL No_match st1
        else do {
          b \<leftarrow> nth_opt (brackets info) (bi + 1);
          run pat subj info
            (Bar_loop re re_len s s_len (bi + 1) (i + (len b + 1) + step) (j + n))
            (st1\<lparr>caps := map_option (AList.update bi (s + j, n)) (caps st1)\<rparr>)
        }
      })"
  using assms(5) by (subst run.simps) (simp add: assms(1-4,6,7))

lemma bar_loop_atom:
  assumes "i < re_len" and "j < s_len"
    and "get_op_len pat (re + i) = Some step" and "is_quantifier pat (re + i) = Some False"
    and "0 < step"
    and "(if i + step < re_len then is_quantifier pat (re + i + step) else Some False) = Some False"
    and "re_at pat (re + i) = Some c0" and "c0 \<noteq> CHR ''(''"
  shows "run pat subj info (Bar_loop re re_len s s_len bi i j) st =
     do {
       r \<leftarrow> simple_atom pat subj (re + i) (s + j) j;
       case r of
         Inl msg \<Rightarrow> FAIL msg st
       | Inr n \<Rightarrow> run pat subj info (Bar_loop re re_len s s_len bi (i + step) (j + n)) st
     }"
  using assms(5,8) by (subst run.simps) (simp add: assms(1-4,6,7))

lemma quant_loop_step:
  "run pat subj info (Quant_loop re re_len s s_len bi i step ni non_greedy j2 nj) st =
     do {
       (n1, st1) \<leftarrow> run pat subj info (Bar_loop (re + i) step (s + j2) (s_len - j2) bi 0 0) st;
       if n1 > 0 then
         do {
           (nj', st2) \<leftarrow>
             (if ni \<ge> re_len then Some (j2 + n1, st1)
              else do {
                (n2, st2) \<leftarrow> run pat subj info
                   (Bar_loop (re + ni) (re_len - ni) (s + j2 + n1) (s_len - (j2 + n1)) bi 0 0) st1;
                Some (if n2 > 0 then j2 + n1 + n2 else nj, st2)
              });
           if nj' > 0 \<and> non_greedy then Some (nj', st2)
           else run pat subj info
                  (Quant_loop re re_len s s_len bi i step ni non_greedy (j2 + n1) nj') st2
         }
       else Some (nj, st1)
     }"
  by (subst run.simps) simp

lemma doh_loop_step:
  "run pat subj info (Doh_loop s s_len bi i) st =
     do {
       b \<leftarrow> nth_opt (brackets info) bi;
       p \<leftarrow> alt_ptr info b i;
       l \<leftarrow> alt_len info b i p;
       (result, st1) \<leftarrow> run pat subj info (Bar_loop p l s s_len bi 0 0) st;
       if i < num_branches b then run pat subj info (Doh_loop s s_len bi (i + 1)) st1
       else Some (result, st1)
     }"
  by (subst run.simps) simp

lemma info_ok_bracket:
  assumes "info_ok pat info" and "0 \<le> k" and "k < num_brackets info"
  shows "\<exists>b. nth_opt (brackets info) k = Some b \<and> bracket_ok pat info b"
  using assms by (auto simp: info_ok_def nth_opt_def num_brackets_def list_all_length)

lemma info_ok_branch:
  assumes "info_ok pat info" and "0 \<le> k" and "k < int (length (branch_tab info))"
  shows "\<exists>br. nth_opt (branch_tab info) k = Some br \<and> branch_ok pat br"
  using assms by (auto simp: info_ok_def nth_opt_def list_all_length)

lemma alt_window:
  assumes ok: "info_ok pat info" and b: "bracket_ok pat info b"
    and i: "0 \<le> i" "i \<le> num_branches b"
  shows "\<exists>p l. alt_ptr info b i = Some p \<and> alt_len info b i p = Some l \<and> win_ok pat p l"
proof -
  have p: "\<exists>p. alt_ptr info b i = Some p \<and> 0 \<le> p"
  proof (cases "i = 0")
    case True
    then show ?thesis using b by (simp add: alt_ptr_def bracket_ok_def)
  next
    case False
    then have "0 \<le> branches b + i - 1" "branches b + i - 1 < int (length (branch_tab info))"
      using b i by (auto simp: bracket_ok_def)
    from info_ok_branch[OF ok this] False show ?thesis
      by (auto simp: alt_ptr_def branch_ok_def)
  qed
  then obtain p where p1: "alt_ptr info b i = Some p" and p2: "0 \<le> p" by auto
  have "\<exists>l. alt_len info b i p = Some l \<and> (l \<le> 0 \<or> p + l \<le> int (length pat))"
  proof (cases "num_branches b = 0")
    case True
    then have "i = 0" using i by simp
    then have "p = ptr b" using p1 by (simp add: alt_ptr_def)
    then show ?thesis using True b by (simp add: alt_len_def bracket_ok_def)
  next
    case nz: False
    show ?thesis
    proof (cases "i = num_branches b")
      case True
      then show ?thesis using nz b by (simp add: alt_len_def bracket_ok_def)
    next
      case False
      then have "0 \<le> branches b + i" "branches b + i < int (length (branch_tab info))"
        using b i by (auto simp: bracket_ok_def)
      from info_ok_branch[OF ok this] nz False show ?thesis
        by (auto simp: alt_len_def branch_ok_def)
    qed
  qed
  with p1 p2 show ?thesis by (auto simp: win_ok_def)
qed

lemma doh_loop_total:
  assumes ok: "info_ok pat info"
    and IH: "\<And>y st. (y, Doh_loop s s_len bi i) \<in> call_order info \<Longrightarrow> call_ok pat subj info y
               \<Longrightarrow> in_range (run pat subj info y st) (call_s_len y)"
    and pre: "call_ok pat subj info (Doh_loop s s_len bi i)"
  shows "in_range (run pat subj info (Doh_loop s s_len bi i) st) s_len"
proof -
  from pre have sb: "sub_ok subj s s_len" and bi: "0 \<le> bi" "bi < num_brackets info" and i0: "0 \<le> i"
    by simp_all
  from info_ok_bracket[OF ok bi] obtain b where
    b: "nth_opt (brackets info) bi = Some b" and bok: "bracket_ok pat info b" by auto
  from pre b have i1: "i \<le> num_branches b" by simp
  from alt_window[OF ok bok i0 i1] obtain p l where
    p: "alt_ptr info b i = Some p" and l: "alt_len info b i p = Some l" and w: "win_ok pat p l"
    by auto
  let ?a = "Bar_loop p l s s_len bi 0 0"
  have "(?a, Doh_loop s s_len bi i) \<in> call_order info"
    by (simp add: call_order_def)
  moreover have "call_ok pat subj info ?a"
    using w sb bi by (simp add: sub_ok_def)
  ultimately have "in_range (run pat subj info ?a st) s_len"
    using IH[of ?a st] by simp
  then obtain r st1 where r: "run pat subj info ?a st = Some (r, st1)" "0 \<le> r" "r \<le> s_len"
    by (rule in_rangeE)
  show ?thesis
  proof (cases "i < num_branches b")
    case True
    let ?d = "Doh_loop s s_len bi (i + 1)"
    have "(?d, Doh_loop s s_len bi i) \<in> call_order info"
      using True by (simp add: call_order_def b)
    moreover have "call_ok pat subj info ?d"
      using sb bi i0 True b by simp
    ultimately have "in_range (run pat subj info ?d st1) s_len"
      using IH[of ?d st1] by simp
    then show ?thesis
      using True by (subst doh_loop_step) (simp add: b p l r)
  next
    case False
    then show ?thesis
      using r by (subst doh_loop_step) (simp add: b p l in_range_def)
  qed
qed

lemma quant_loop_total:
  assumes ok: "info_ok pat info"
    and IH: "\<And>y st. (y, Quant_loop re re_len s s_len bi i step ni ng j2 nj) \<in> call_order info
               \<Longrightarrow> call_ok pat subj info y
               \<Longrightarrow> in_range (run pat subj info y st) (call_s_len y)"
    and pre: "call_ok pat subj info (Quant_loop re re_len s s_len bi i step ni ng j2 nj)"
  shows "in_range (run pat subj info (Quant_loop re re_len s s_len bi i step ni ng j2 nj) st) s_len"
proof -
  let ?c = "Quant_loop re re_len s s_len bi i step ni ng j2 nj"
  from pre have w: "win_ok pat re re_len" and sb: "sub_ok subj s s_len"
    and bi: "0 \<le> bi" "bi < num_brackets info"
    and i: "0 \<le> i" "1 \<le> step" "i + step < re_len" "i + step < ni"
    and j: "0 \<le> j2" "j2 \<le> s_len" "0 \<le> nj" "nj \<le> s_len"
    by simp_all
  let ?a = "Bar_loop (re + i) step (s + j2) (s_len - j2) bi 0 0"
  have "(?a, ?c) \<in> call_order info"
    using i by (simp add: call_order_def)
  moreover have "call_ok pat subj info ?a"
    using w sb bi i j by (auto simp: win_ok_def sub_ok_def)
  ultimately have "in_range (run pat subj info ?a st) (s_len - j2)"
    using IH[of ?a st] by simp
  then obtain n1 st1 where a: "run pat subj info ?a st = Some (n1, st1)" "0 \<le> n1" "n1 \<le> s_len - j2"
    by (rule in_rangeE)
  show ?thesis
  proof (cases "n1 > 0")
    case False
    then show ?thesis
      using j by (subst quant_loop_step) (simp add: a in_range_def)
  next
    case pos: True
    have "\<exists>nj' st2.
        (if ni \<ge> re_len then Some (j2 + n1, st1)
         else do {
           (n2, st2) \<leftarrow> run pat subj info
              (Bar_loop (re + ni) (re_len - ni) (s + j2 + n1) (s_len - (j2 + n1)) bi 0 0) st1;
           Some (if n2 > 0 then j2 + n1 + n2 else nj, st2)
         }) = Some (nj', st2) \<and> 0 \<le> nj' \<and> nj' \<le> s_len"
    proof (cases "ni \<ge> re_len")
      case True
      then show ?thesis using a j by simp
    next
      case False
      let ?t = "Bar_loop (re + ni) (re_len - ni) (s + j2 + n1) (s_len - (j2 + n1)) bi 0 0"
      have "(?t, ?c) \<in> call_order info"
        using i False by (simp add: call_order_def)
      moreover have "call_ok pat subj info ?t"
        using w sb bi i j a False by (auto simp: win_ok_def sub_ok_def)
      ultimately have "in_range (run pat subj info ?t st1) (s_len - (j2 + n1))"
        using IH[of ?t st1] by simp
      then obtain n2 st2 where "run pat subj info ?t st1 = Some (n2, st2)" "0 \<le> n2"
          "n2 \<le> s_len - (j2 + n1)"
        by (rule in_rangeE)
      then show ?thesis using False j a by simp
    qed
    then obtain nj' st2 where
      t: "(if ni \<ge> re_len then Some (j2 + n1, st1)
         else do {
           (n2, st2) \<leftarrow> run pat subj info
              (Bar_loop (re + ni) (re_len - ni) (s + j2 + n1) (s_len - (j2 + n1)) bi 0 0) st1;
           Some (if n2 > 0 then j2 + n1 + n2 else nj, st2)
         }) = Some (nj', st2)" and nj': "0 \<le> nj'" "nj' \<le> s_len"
      by blast
    let ?q = "Quant_loop re re_len s s_len bi i step ni ng (j2 + n1) nj'"
    have "(?q, ?c) \<in> call_order info"
      using pos a by (simp add: call_order_def)
    moreover have "call_ok pat subj info ?q"
      using w sb bi i j a nj' by simp
    ultimately have q: "in_range (run pat subj info ?q st2) s_len"
      using IH[of ?q st2] by simp
    show ?thesis
      using pos q nj' by (subst quant_loop_step) (simp add: a t in_range_def)
  qed
qed

lemma quant_tail_defined:
  assumes w: "win_ok pat re re_len" and i: "0 \<le> i" "0 < step" "i + step < re_len"
  shows "\<exists>ng ni. quant_tail pat re re_len i step = Some (ng, ni) \<and> i + step < ni"
proof -
  obtain c where c: "re_at pat (re + i + step) = Some c"
    using re_at_in_window[OF w, of "i + step"] i by (auto simp: add.assoc)
  then have g: "get_op_len pat (re + i + step) = Some (if c = CHR 0x5C then 2 else 1)"
    by (simp add: get_op_len_def)
  have "\<exists>c2. (if i + step + 1 < re_len then re_at pat (re + i + step + 1) else Some (CHR 0x00))
           = Some c2"
    using re_at_in_window[OF w, of "i + step + 1"] i by (auto simp: add.assoc)
  then obtain c2 where
    "(if i + step + 1 < re_len then re_at pat (re + i + step + 1) else Some (CHR 0x00)) = Some c2"
    by blast
  then show ?thesis
    by (simp add: quant_tail_def g Let_def)
qed

lemma bar_loop_total:
  assumes ok: "info_ok pat info"
    and IH: "\<And>y st. (y, Bar_loop re re_len s s_len bi i j) \<in> call_order info
               \<Longrightarrow> call_ok pat subj info y
               \<Longrightarrow> in_range (run pat subj info y st) (call_s_len y)"
    and pre: "call_ok pat subj info (Bar_loop re re_len s s_len bi i j)"
  shows "in_range (run pat subj info (Bar_loop re re_len s s_len bi i j) st) s_len"
proof -
  let ?c = "Bar_loop re re_len s s_len bi i j"
  from pre have w: "win_ok pat re re_len" and sb: "sub_ok subj s s_len"
    and bi: "0 \<le> bi" "bi < num_brackets info"
    and i: "0 \<le> i" and j: "0 \<le> j" "j \<le> s_len"
    by simp_all
  show ?thesis
  proof (cases "i < re_len \<and> j < s_len")
    case False
    show ?thesis
    proof (cases "i < re_len")
      case True
      then obtain c0 where "re_at pat (re + i) = Some c0"
        using re_at_in_window[OF w, of i] i by auto
      then show ?thesis
        using False True j by (subst bar_loop_exit) (auto simp: in_range_def FAIL_def)
    next
      case nlt: False
      then show ?thesis
        using False j by (subst bar_loop_exit) (auto simp: in_range_def)
    qed
  next
    case True
    then have lt: "i < re_len" "j < s_len" by simp_all
    obtain c0 where c0: "re_at pat (re + i) = Some c0"
      using re_at_in_window[OF w, of i] i lt by auto
    define step :: int where "step = (if c0 = CHR 0x5C then 2 else 1)"
    have step: "get_op_len pat (re + i) = Some step" "0 < step"
      using c0 by (simp_all add: get_op_len_def step_def)
    have s0: "0 \<le> s_len" using sb by (simp add: sub_ok_def)
    show ?thesis
    proof (cases "c0 = CHR ''*'' \<or> c0 = CHR ''+'' \<or> c0 = CHR ''?''")
      case q: True
      then have "is_quantifier pat (re + i) = Some True"
        using c0 by (simp add: is_quantifier_def)
      then show ?thesis
        using s0 by (subst bar_loop_bare_quantifier[OF lt step(1)]) (simp_all add: in_range_FAIL)
    next
      case nq: False
      then have q: "is_quantifier pat (re + i) = Some False"
        using c0 by (simp add: is_quantifier_def)
      have "\<exists>c1. i + step < re_len \<and> re_at pat (re + i + step) = Some c1 \<and>
                 (c1 = CHR ''*'' \<or> c1 = CHR ''+'' \<or> c1 = CHR ''?'')
            \<or> (if i + step < re_len then is_quantifier pat (re + i + step) else Some False)
                 = Some False"
      proof (cases "i + step < re_len")
        case True
        then obtain c1 where c1: "re_at pat (re + i + step) = Some c1"
          using re_at_in_window[OF w, of "i + step"] i step(2) by (auto simp: add.assoc)
        then show ?thesis
          using True by (auto simp: is_quantifier_def)
      next
        case False
        then show ?thesis by simp
      qed
      then consider
          (opt) "i + step < re_len" "re_at pat (re + i + step) = Some (CHR ''?'')"
        | (rep) c1 where "i + step < re_len" "re_at pat (re + i + step) = Some c1"
            "c1 = CHR ''+'' \<or> c1 = CHR ''*''"
        | (plain) "(if i + step < re_len then is_quantifier pat (re + i + step) else Some False)
                 = Some False"
        by blast
      then show ?thesis
      proof cases
        case opt
        let ?a = "Bar_loop (re + i) step (s + j) (s_len - j) bi 0 0"
        have "(?a, ?c) \<in> call_order info"
          using opt(1) i step(2) by (simp add: call_order_def)
        moreover have "call_ok pat subj info ?a"
          using w sb bi i j opt(1) step(2) by (auto simp: win_ok_def sub_ok_def)
        ultimately have "in_range (run pat subj info ?a st) (s_len - j)"
          using IH[of ?a st] by simp
        then obtain n st1 where a: "run pat subj info ?a st = Some (n, st1)" "0 \<le> n" "n \<le> s_len - j"
          by (rule in_rangeE)
        let ?n = "Bar_loop re re_len s s_len bi (i + 1 + step) (j + n)"
        have "(?n, ?c) \<in> call_order info"
          using lt step(2) by (simp add: call_order_def)
        moreover have "call_ok pat subj info ?n"
          using w sb bi i j a step(2) by simp
        ultimately have "in_range (run pat subj info ?n st1) s_len"
          using IH[of ?n st1] by simp
        then show ?thesis
          by (subst bar_loop_optional[OF lt step(1) q step(2) opt]) (simp add: a)
      next
        case rep
        from quant_tail_defined[OF w i step(2) rep(1)] obtain ng ni where
          qt: "quant_tail pat re re_len i step = Some (ng, ni)" and ni: "i + step < ni"
          by auto
        let ?q = "Quant_loop re re_len s s_len bi i step ni ng j 0"
        have "(?q, ?c) \<in> call_order info"
          by (simp add: call_order_def)
        moreover have "call_ok pat subj info ?q"
          using w sb bi i j step(2) rep(1) ni s0 by simp
        ultimately have "in_range (run pat subj info ?q st) s_len"
          using IH[of ?q st] by simp
        then obtain nj st1 where r: "run pat subj info ?q st = Some (nj, st1)" "0 \<le> nj" "nj \<le> s_len"
          by (rule in_rangeE)
        show ?thesis
          using r(2,3) s0
          by (subst bar_loop_repeat[OF lt step(1) q step(2) rep]) (simp add: qt r(1) in_range_def FAIL_def)
      next
        case plain
        show ?thesis
        proof (cases "c0 = CHR ''(''")
          case True
          with c0 have g: "re_at pat (re + i) = Some (CHR ''('')" by simp
          show ?thesis
          proof (cases "bi + 1 \<ge> num_brackets info")
            case True
            then show ?thesis
              using s0 by (subst bar_loop_group[OF lt step(1) q step(2) plain g]) (simp add: in_range_FAIL)
          next
            case False
            then have bi1: "0 \<le> bi + 1" "bi + 1 < num_brackets info" using bi by simp_all
            from info_ok_bracket[OF ok bi1] obtain b where
              b: "nth_opt (brackets info) (bi + 1) = Some b" and bok: "bracket_ok pat info b" by auto
            let ?d = "Doh_loop (s + j) (s_len - j) (bi + 1) 0"
            have "(?d, ?c) \<in> call_order info"
              using bi1 by (simp add: call_order_def)
            moreover have "call_ok pat subj info ?d"
              using sb bi1 j b bok by (simp add: sub_ok_def bracket_ok_def)
            ultimately have "in_range (run pat subj info ?d st) (s_len - j)"
              using IH[of ?d st] by simp
            then obtain n st1 where d: "run pat subj info ?d st = Some (n, st1)" "0 \<le> n" "n \<le> s_len - j"
              by (rule in_rangeE)
            show ?thesis
            proof (cases "n \<le> 0")
              case True
              then show ?thesis
                using s0 False
                by (subst bar_loop_group[OF lt step(1) q step(2) plain g]) (simp add: d(1) in_range_FAIL)
            next
              case pos: False
              let ?n = "Bar_loop re re_len s s_len (bi + 1) (i + (len b + 1) + step) (j + n)"
              have "(?n, ?c) \<in> call_order info"
                using bi1 by (simp add: call_order_def)
              moreover have "call_ok pat subj info ?n"
                using w sb bi1 i j d step(2) bok by (simp add: bracket_ok_def)
              ultimately have "in_range (run pat subj info ?n
                  (st1\<lparr>caps := map_option (AList.update bi (s + j, n)) (caps st1)\<rparr>)) s_len"
                using IH[of ?n] by simp
              then show ?thesis
                using pos False
                by (subst bar_loop_group[OF lt step(1) q step(2) plain g]) (simp add: d(1) b)
            qed
          qed
        next
          case False
          from simple_atom_defined[OF w i lt(1) sb j(1) lt(2)] obtain r where
            r: "simple_atom pat subj (re + i) (s + j) j = Some r"
            and rn: "case r of Inl msg \<Rightarrow> True | Inr n \<Rightarrow> n = 0 \<or> n = 1"
            by auto
          show ?thesis
          proof (cases r)
            case (Inl msg)
            then show ?thesis
              using s0 by (subst bar_loop_atom[OF lt step(1) q step(2) plain c0 False]) (simp add: r in_range_FAIL)
          next
            case (Inr n)
            with rn have n: "n = 0 \<or> n = 1" by simp
            let ?n = "Bar_loop re re_len s s_len bi (i + step) (j + n)"
            have "(?n, ?c) \<in> call_order info"
              using lt step(2) by (simp add: call_order_def)
            moreover have "call_ok pat subj info ?n"
              using w sb bi i j lt n step(2) by auto
            ultimately have "in_range (run pat subj info ?n st) s_len"
              using IH[of ?n st] by simp
            then show ?thesis
              using Inr by (subst bar_loop_atom[OF lt step(1) q step(2) plain c0 False]) (simp add: r)
          qed
        qed
      qed
    qed
  qed
qed

lemma run_total:
  assumes ok: "info_ok pat info"
  shows "call_ok pat subj info c \<Longrightarrow> in_range (run pat subj info c st) (call_s_len c)"
proof (induction c arbitrary: st rule: wf_induct_rule[OF wf_call_order[of info]])
  case (1 c)
  show ?case
  proof (cases c)
    case (Bar_loop re re_len s s_len bi i j)
    then show ?thesis
      using bar_loop_total[OF ok] 1 by simp
  next
    case (Quant_loop re re_len s s_len bi i step ni ng j2 nj)
    then show ?thesis
      using quant_loop_total[OF ok] 1 by simp
  next
    case (Doh_loop s s_len bi i)
    then show ?thesis
      using doh_loop_total[OF ok] 1 by simp
  qed
qed

lemma list_all_update: "list_all P xs \<Longrightarrow> P x \<Longrightarrow> list_all P (xs[n := x])"
  by (cases "n < length xs") (auto simp: list_all_length nth_list_update)

lemma scan_ok_mono: "scan_ok pat i depth info \<Longrightarrow> i \<le> i' \<Longrightarrow> scan_ok pat i' depth info"
  by (auto simp: scan_ok_def list_all_length)

lemma scan_step_ok:
  assumes inv: "scan_ok pat i depth info" and i: "0 \<le> i" "i < int (length pat)"
  shows "\<exists>res. scan_step pat i depth info = Some res \<and>
           (case res of Inl msg \<Rightarrow> True | Inr (depth', info') \<Rightarrow> scan_ok pat (i + 1) depth' info')"
proof -
  have c: "re_at pat i = Some (pat ! nat i)"
    using i by (simp add: re_at_def)
  from inv have ne: "brackets info \<noteq> []" and d: "0 \<le> depth" "depth < int (length (brackets info))"
    and bs: "list_all (\<lambda>b. span_ok pat b \<and> ptr b \<le> i) (brackets info)"
    and br: "list_all (branch_ok pat) (branch_tab info)"
    by (auto simp: scan_ok_def)
  obtain lb where lb: "nth_opt (brackets info) (num_brackets info - 1) = Some lb"
    using ne by (auto simp: nth_opt_def num_brackets_def)
  have bs1: "list_all (\<lambda>b. span_ok pat b \<and> ptr b \<le> i + 1) (brackets info)"
    using bs by (auto simp: list_all_length)
  consider (c_bar) "pat ! nat i = CHR ''|''" | (c_open) "pat ! nat i = CHR ''(''"
    | (c_close) "pat ! nat i = CHR '')''"
    | (c_other) "pat ! nat i \<noteq> CHR ''|''" "pat ! nat i \<noteq> CHR ''(''" "pat ! nat i \<noteq> CHR '')''"
    by blast
  then show ?thesis
  proof cases
    case c_bar
    then show ?thesis
      using d bs1 br i by (simp add: scan_step_def c lb scan_ok_def branch_ok_def)
  next
    case c_open
    then show ?thesis
      using d bs1 br i by (simp add: scan_step_def c scan_ok_def span_ok_def)
  next
    case c_close
    define ind where "ind = (if len lb = - 1 then num_brackets info - 1 else depth)"
    have ind: "0 \<le> ind" "ind < int (length (brackets info))"
      using d ne by (auto simp: ind_def num_brackets_def)
    then have b: "nth_opt (brackets info) ind = Some (brackets info ! nat ind)"
      by (simp add: nth_opt_def)
    have "span_ok pat (brackets info ! nat ind) \<and> ptr (brackets info ! nat ind) \<le> i"
      using bs ind by (auto simp: list_all_length)
    then have nb: "span_ok pat ((brackets info ! nat ind)\<lparr>len := i - ptr (brackets info ! nat ind)\<rparr>)
        \<and> ptr ((brackets info ! nat ind)\<lparr>len := i - ptr (brackets info ! nat ind)\<rparr>) \<le> i + 1"
      using i by (simp add: span_ok_def)
    have p: "\<exists>p. (if i > 0 then re_at pat (i - 1) else Some (CHR 0x00)) = Some p"
      using i by (auto simp: re_at_def)
    then obtain p where p: "(if i > 0 then re_at pat (i - 1) else Some (CHR 0x00)) = Some p"
      by blast
    show ?thesis
      using c_close d br list_all_update[OF bs1 nb, of "nat ind"]
      by (simp add: scan_step_def c lb b p scan_ok_def Let_def ind_def[symmetric])
  next
    case c_other
    then show ?thesis
      using inv by (simp add: scan_step_def c scan_ok_mono[of pat i depth info "i + 1"])
  qed
qed

lemma scan_loop_ok:
  "scan_ok pat i depth info \<Longrightarrow> 0 \<le> i \<Longrightarrow> re_len = int (length pat) \<Longrightarrow>
   \<exists>res. scan_loop pat re_len i depth info = Some res \<and>
     (case res of Inl msg \<Rightarrow> True | Inr (depth', info') \<Rightarrow> pre_ok pat info')"
proof (induction pat re_len i depth info rule: scan_loop.induct)
  case (1 pat re_len i depth info)
  show ?case
  proof (cases "i < re_len")
    case False
    then have "scan_loop pat re_len i depth info = Some (Inr (depth, info))"
      by (simp add: scan_loop.simps[of pat re_len i depth info])
    then show ?thesis
      using "1.prems" by (auto simp: scan_ok_def pre_ok_def list_all_length)
  next
    case True
    then have i: "0 \<le> i" "i < int (length pat)" using "1.prems" by simp_all
    obtain step where step: "get_op_len pat i = Some step" "1 \<le> step"
      using i by (auto simp: get_op_len_def re_at_def)
    from scan_step_ok[OF "1.prems"(1) i] obtain res where
      res: "scan_step pat i depth info = Some res"
      and inv: "case res of Inl msg \<Rightarrow> True | Inr (depth', info') \<Rightarrow> scan_ok pat (i + 1) depth' info'"
      by auto
    show ?thesis
    proof (cases res)
      case (Inl msg)
      then have "scan_loop pat re_len i depth info = Some (Inl msg)"
        using True step res by (simp add: scan_loop.simps[of pat re_len i depth info])
      then show ?thesis
        by simp
    next
      case (Inr p)
      obtain depth' info' where p: "p = (depth', info')" by (cases p)
      have "scan_ok pat (i + step) depth' info'"
        using inv Inr p step(2) scan_ok_mono[of pat "i + 1" depth' info' "i + step"] by simp
      moreover have "scan_loop pat re_len i depth info
          = scan_loop pat re_len (i + step) depth' info'"
        using True step(1) res Inr p by (simp add: scan_loop.simps[of pat re_len i depth info])
      ultimately show ?thesis
        using "1.IH"[OF True step(1) res[unfolded Inr p] refl refl] i step(2) "1.prems"(3)
        by simp
    qed
  qed
qed

lemma sort_inner_keeps:
  "n \<le> length bs \<Longrightarrow> i < n \<Longrightarrow> list_all P bs \<Longrightarrow>
   list_all P (sort_inner n bs i j) \<and> length (sort_inner n bs i j) = length bs"
proof (induction n bs i j rule: sort_inner.induct)
  case (1 n bs i j)
  show ?case
  proof (cases "j < n")
    case False
    then show ?thesis using "1.prems" by (simp add: sort_inner.simps[of n bs i j])
  next
    case True
    let ?bs = "if bracket_index (bs ! i) > bracket_index (bs ! j)
           then bs[i := bs ! j, j := bs ! i] else bs"
    have "list_all P ?bs" and "length ?bs = length bs"
      using "1.prems" True by (auto simp: list_all_length nth_list_update)
    with "1.IH"[OF True] "1.prems" True show ?thesis
      by (simp add: sort_inner.simps[of n bs i j])
  qed
qed

lemma sort_outer_keeps:
  "n \<le> length bs \<Longrightarrow> list_all P bs \<Longrightarrow>
   list_all P (sort_outer n bs i) \<and> length (sort_outer n bs i) = length bs"
proof (induction n bs i rule: sort_outer.induct)
  case (1 n bs i)
  show ?case
  proof (cases "i < n")
    case False
    then show ?thesis using "1.prems" by (simp add: sort_outer.simps[of n bs i])
  next
    case True
    from sort_inner_keeps[OF "1.prems"(1) True "1.prems"(2), of "i + 1"]
    have "list_all P (sort_inner n bs i (i + 1))" "length (sort_inner n bs i (i + 1)) = length bs"
      by simp_all
    with "1.IH"[OF True] "1.prems" True show ?thesis
      by (simp add: sort_outer.simps[of n bs i])
  qed
qed

lemma count_branches_bounds:
  "j \<le> length bs \<Longrightarrow> j \<le> count_branches bs i j \<and> count_branches bs i j \<le> length bs"
proof (induction bs i j rule: count_branches.induct)
  case (1 bs i j)
  show ?case
  proof (cases "j < length bs \<and> bracket_index (bs ! j) = int i")
    case True
    with "1.IH" show ?thesis by (auto simp: count_branches.simps[of bs i j])
  next
    case False
    then show ?thesis using "1.prems" by (auto simp: count_branches.simps[of bs i j])
  qed
qed

lemma assign_branches_ok:
  "j \<le> length bs \<Longrightarrow> list_all (span_ok pat) bks \<Longrightarrow>
   list_all (assigned_ok pat (length bs)) (take i bks) \<Longrightarrow>
   list_all (assigned_ok pat (length bs)) (assign_branches bs bks i j) \<and>
   length (assign_branches bs bks i j) = length bks"
proof (induction bs bks i j rule: assign_branches.induct)
  case (1 bs bks i j)
  show ?case
  proof (cases "i < length bks")
    case False
    then show ?thesis using "1.prems" by (simp add: assign_branches.simps[of bs bks i j])
  next
    case True
    define j' where "j' = count_branches bs i j"
    define b where "b = (bks ! i)\<lparr>branches := int j, num_branches := int j' - int j\<rparr>"
    have j': "j \<le> j'" "j' \<le> length bs"
      using count_branches_bounds[OF "1.prems"(1), of i] by (simp_all add: j'_def)
    have sp: "span_ok pat (bks ! i)"
      using "1.prems"(2) True by (simp add: list_all_length)
    then have b1: "span_ok pat b" "assigned_ok pat (length bs) b"
      using j' by (simp_all add: b_def span_ok_def assigned_ok_def)
    have a: "list_all (span_ok pat) (bks[i := b])"
      using "1.prems"(2) b1(1) by (rule list_all_update)
    have c: "list_all (assigned_ok pat (length bs)) (take (i + 1) (bks[i := b]))"
      unfolding list_all_length
    proof (intro allI impI)
      fix k assume k: "k < length (take (i + 1) (bks[i := b]))"
      show "assigned_ok pat (length bs) (take (i + 1) (bks[i := b]) ! k)"
      proof (cases "k = i")
        case True
        then show ?thesis using k b1(2) by simp
      next
        case False
        then have "k < i" using k by simp
        then have "assigned_ok pat (length bs) (take i bks ! k)"
          using "1.prems"(3) True by (simp add: list_all_length)
        then show ?thesis using \<open>k < i\<close> False by simp
      qed
    qed
    from "1.IH"[OF True refl, folded j'_def, folded b_def, OF j'(2) a c]
    show ?thesis
      using True by (simp add: assign_branches.simps[of bs bks i j] Let_def j'_def[symmetric] b_def[symmetric])
  qed
qed

lemma setup_branch_points_ok:
  assumes "pre_ok pat info"
  shows "info_ok pat (setup_branch_points info)"
proof -
  define bs where "bs = sort_outer (length (branch_tab info)) (branch_tab info) 0"
  from assms have ne: "brackets info \<noteq> []" and sp: "list_all (span_ok pat) (brackets info)"
    and br: "list_all (branch_ok pat) (branch_tab info)"
    by (simp_all add: pre_ok_def)
  have bs: "list_all (branch_ok pat) bs"
    using sort_outer_keeps[OF order_refl br, of 0] by (simp add: bs_def)
  have "list_all (assigned_ok pat (length bs)) (take 0 (brackets info))"
    by simp
  from assign_branches_ok[OF _ sp this, of 0]
  have a: "list_all (assigned_ok pat (length bs)) (assign_branches bs (brackets info) 0 0)"
    and l: "length (assign_branches bs (brackets info) 0 0) = length (brackets info)"
    by simp_all
  have "assigned_ok pat (length bs) b = bracket_ok pat (setup_branch_points info) b" for b
    by (simp add: assigned_ok_def bracket_ok_def span_ok_def setup_branch_points_def
        bs_def[symmetric] Let_def)
  with a have "list_all (bracket_ok pat (setup_branch_points info)) (assign_branches bs (brackets info) 0 0)"
    by (simp add: list_all_length)
  moreover have "assign_branches bs (brackets info) 0 0 \<noteq> []"
    using l ne by auto
  ultimately show ?thesis
    using bs by (simp add: info_ok_def setup_branch_points_def bs_def[symmetric] Let_def)
qed

lemma analyse_ok:
  "\<exists>res. analyse pat (int (length pat)) = Some res \<and>
     (case res of Inl msg \<Rightarrow> True | Inr info \<Rightarrow> info_ok pat info)"
proof -
  let ?info = "scan_init (int (length pat))"
  have "scan_ok pat 0 0 ?info"
    by (simp add: scan_ok_def span_ok_def scan_init_def)
  from scan_loop_ok[OF this order_refl refl] obtain res where
    res: "scan_loop pat (int (length pat)) 0 0 ?info = Some res"
    and inv: "case res of Inl msg \<Rightarrow> True | Inr (depth', info') \<Rightarrow> pre_ok pat info'"
    by auto
  show ?thesis
  proof (cases res)
    case (Inl msg)
    then show ?thesis using res by (simp add: analyse_def)
  next
    case (Inr p)
    obtain depth info where p: "p = (depth, info)" by (cases p)
    with inv Inr have "pre_ok pat info" by simp
    then have "info_ok pat (setup_branch_points info)"
      by (rule setup_branch_points_ok)
    then show ?thesis using res Inr p by (simp add: analyse_def)
  qed
qed

lemma doh_total:
  assumes ok: "info_ok pat info" and sb: "sub_ok subj s s_len"
  shows "in_range (doh pat subj info s s_len 0 st) s_len"
proof -
  have nb: "0 < num_brackets info"
    using ok by (simp add: info_ok_def num_brackets_def)
  from info_ok_bracket[OF ok order_refl nb] obtain b where
    "nth_opt (brackets info) 0 = Some b" "bracket_ok pat info b" by auto
  then have "call_ok pat subj info (Doh_loop s s_len 0 0)"
    using sb nb by (simp add: bracket_ok_def)
  from run_total[OF ok this, of st] show ?thesis
    by (simp add: doh_def)
qed

lemma match_loop_total:
  "info_ok pat info \<Longrightarrow> s_len = int (length subj) \<Longrightarrow> 0 \<le> i \<Longrightarrow>
   0 \<le> result \<Longrightarrow> result \<le> s_len \<Longrightarrow>
   in_range (match_loop pat subj info s_len i result st) s_len"
proof (induction pat subj info s_len i result st rule: match_loop.induct)
  case (1 pat subj info s_len i result st)
  show ?case
  proof (cases "i < s_len")
    case False
    then have "match_loop pat subj info s_len i result st = Some (result, st)"
      by (simp add: match_loop.simps[of pat subj info s_len i result st])
    then show ?thesis
      using "1.prems" by (simp add: in_range_def)
  next
    case True
    have "sub_ok subj i (s_len - i)"
      using True "1.prems" by (simp add: sub_ok_def)
    from doh_total[OF "1.prems"(1) this, of st] obtain r st1 where
      d: "doh pat subj info i (s_len - i) 0 st = Some (r, st1)" "0 \<le> r" "r \<le> s_len - i"
      by (rule in_rangeE)
    obtain c where c: "re_at pat 0 = Some c"
      using re_at_defined[of 0 pat] by auto
    show ?thesis
    proof (cases "r > 0 \<or> c = CHR ''^''")
      case stop: True
      then have "match_loop pat subj info s_len i result st = Some (r + i, st1)"
        using True d(1) by (simp add: match_loop.simps[of pat subj info s_len i result st] c)
      then show ?thesis
        using d "1.prems" by (simp add: in_range_def)
    next
      case go: False
      from "1.IH"[OF True d(1) refl c go "1.prems"(1,2)] d "1.prems" True
      have "in_range (match_loop pat subj info s_len (i + 1) r st1) s_len"
        by simp
      moreover have "match_loop pat subj info s_len i result st
          = match_loop pat subj info s_len (i + 1) r st1"
        using True d(1) go by (simp add: match_loop.simps[of pat subj info s_len i result st] c)
      ultimately show ?thesis
        by simp
    qed
  qed
qed

lemma slre_match_total:
  "\<exists>r st. slre_match pat subj cps = Some (r, st) \<and> 0 \<le> r \<and> r \<le> int (length subj)"
proof -
  from analyse_ok[of pat] obtain res where
    res: "analyse pat (int (length pat)) = Some res"
    and inv: "case res of Inl msg \<Rightarrow> True | Inr info \<Rightarrow> info_ok pat info"
    by auto
  show ?thesis
  proof (cases res)
    case (Inl msg)
    then show ?thesis
      using res by (simp add: slre_match_def foo_def FAIL_def)
  next
    case (Inr info)
    with inv have "info_ok pat info" by simp
    from match_loop_total[OF this refl order_refl order_refl, of subj "\<lparr>error_msg = No_match, caps = cps\<rparr>"]
    show ?thesis
      using res Inr by (auto simp: slre_match_def foo_def elim: in_rangeE)
  qed
qed

lemma scan_next_loop:
  assumes "scan_next pat re_len (i, depth, info) (i', depth', info')"
  shows "scan_loop pat re_len i depth info = scan_loop pat re_len i' depth' info'"
  using assms
  by (auto simp: scan_next_def scan_loop.simps[of pat re_len i depth info] split: option.splits)

lemma scan_next_ok:
  assumes "scan_next pat (int (length pat)) (i, depth, info) (i', depth', info')"
    and "scan_ok pat i depth info" and "0 \<le> i"
  shows "scan_ok pat i' depth' info' \<and> 0 \<le> i'"
proof -
  from assms(1) obtain step where lt: "i < int (length pat)"
    and step: "get_op_len pat i = Some step" "i' = i + step"
    and st: "scan_step pat i depth info = Some (Inr (depth', info'))"
    by (auto simp: scan_next_def split: option.splits)
  have s1: "1 \<le> step"
    using step(1) by (auto simp: get_op_len_def split: bind_splits if_splits)
  from scan_step_ok[OF assms(2,3) lt] st have "scan_ok pat (i + 1) depth' info'"
    by simp
  then show ?thesis
    using scan_ok_mono[of pat "i + 1" depth' info' i'] step(2) s1 assms(3) by simp
qed

lemma scan_reaches_ok:
  assumes "scan_reaches pat a"
  shows "scan_ok pat (fst a) (fst (snd a)) (snd (snd a)) \<and> 0 \<le> fst a
       \<and> scan_loop pat (int (length pat)) 0 0 (scan_init (int (length pat)))
         = scan_loop pat (int (length pat)) (fst a) (fst (snd a)) (snd (snd a))"
  using assms unfolding scan_reaches_def
proof (induction rule: rtranclp_induct)
  case base
  show ?case
    by (simp add: scan_ok_def span_ok_def scan_init_def)
next
  case (step y z)
  obtain i d info where y: "y = (i, d, info)" by (cases y)
  obtain i' d' info' where z: "z = (i', d', info')" by (cases z)
  from step.hyps(2) scan_next_ok[of pat i d info i' d' info'] scan_next_loop[of pat _ i d info i' d' info']
    step.IH
  show ?case
    by (simp add: y z)
qed

lemma scan_step_close:
  assumes inv: "scan_ok pat i depth info" and c: "re_at pat i = Some (CHR '')'')"
  shows "\<exists>info'. scan_step pat i depth info =
     Some (if depth - 1 < 0 then Inl Unbalanced_brackets
           else if i > 0 \<and> re_at pat (i - 1) = Some (CHR ''('') then Inl No_match
           else Inr (depth - 1, info'))"
proof -
  from c have i: "0 \<le> i" "i < int (length pat)"
    by (auto simp: re_at_def split: if_splits)
  from inv have d: "0 \<le> depth" "depth < int (length (brackets info))"
    by (auto simp: scan_ok_def)
  then obtain lb where lb: "nth_opt (brackets info) (num_brackets info - 1) = Some lb"
    by (cases "brackets info") (auto simp: nth_opt_def num_brackets_def)
  define ind where "ind = (if len lb = - 1 then num_brackets info - 1 else depth)"
  have "0 \<le> ind" "ind < int (length (brackets info))"
    using d by (auto simp: ind_def num_brackets_def)
  then have b: "nth_opt (brackets info) ind = Some (brackets info ! nat ind)"
    by (simp add: nth_opt_def)
  have "\<exists>p. (if i > 0 then re_at pat (i - 1) else Some (CHR 0x00)) = Some p"
    using i by (auto simp: re_at_def)
  then obtain p where p: "(if i > 0 then re_at pat (i - 1) else Some (CHR 0x00)) = Some p"
    by blast
  show ?thesis
    using p by (auto simp: scan_step_def c lb b Let_def ind_def[symmetric] split: if_splits)
qed

lemma scan_loop_close_unbalanced:
  assumes inv: "scan_ok pat i depth info" and c: "re_at pat i = Some (CHR '')'')"
    and d: "depth - 1 < 0"
  shows "scan_loop pat (int (length pat)) i depth info = Some (Inl Unbalanced_brackets)"
proof -
  from c have i: "0 \<le> i" "i < int (length pat)"
    by (auto simp: re_at_def split: if_splits)
  from scan_step_close[OF inv c] d
  have "scan_step pat i depth info = Some (Inl Unbalanced_brackets)"
    by auto
  then show ?thesis
    using i c by (simp add: get_op_len_def scan_loop.simps[of pat "int (length pat)" i depth info])
qed

lemma unbalanced_rejected:
  assumes r: "scan_reaches pat (i, depth, info)"
    and u: "(i < int (length pat) \<and> re_at pat i = Some (CHR '')'') \<and> depth - 1 < 0)
          \<or> (int (length pat) \<le> i \<and> depth \<noteq> 0)"
  shows "slre_match pat subj cps = Some (0, \<lparr>error_msg = Unbalanced_brackets, caps = cps\<rparr>)"
proof -
  from scan_reaches_ok[OF r] have inv: "scan_ok pat i depth info"
    and eq: "scan_loop pat (int (length pat)) 0 0 (scan_init (int (length pat)))
         = scan_loop pat (int (length pat)) i depth info"
    by simp_all
  have "analyse pat (int (length pat)) = Some (Inl Unbalanced_brackets)"
  proof (cases "i < int (length pat)")
    case True
    with u have "re_at pat i = Some (CHR '')'')" "depth - 1 < 0" by auto
    from scan_loop_close_unbalanced[OF inv this] show ?thesis
      by (simp add: analyse_def eq)
  next
    case False
    with u have "depth \<noteq> 0" by auto
    then show ?thesis
      using False
      by (simp add: analyse_def eq scan_loop.simps[of pat "int (length pat)" i depth info])
  qed
  then show ?thesis
    by (simp add: slre_match_def foo_def FAIL_def)
qed

lemma open_paren_reaches: "scan_reaches ''('' (1, 1, 
   \<lparr>brackets = [\<lparr>ptr = 0, len = 1, branches = 0, num_branches = 0\<rparr>,
                \<lparr>ptr = 1, len = - 1, branches = 0, num_branches = 0\<rparr>], branch_tab = []\<rparr>)"
proof -
  have "scan_next ''('' 1 (0, 0, scan_init 1) (1, 1, 
   \<lparr>brackets = [\<lparr>ptr = 0, len = 1, branches = 0, num_branches = 0\<rparr>,
                \<lparr>ptr = 1, len = - 1, branches = 0, num_branches = 0\<rparr>], branch_tab = []\<rparr>)"
    by code_simp
  then show ?thesis
    unfolding scan_reaches_def by auto
qed

lemma scan_loop_rejects_pair:
  "scan_ok pat i depth info \<Longrightarrow> 0 \<le> i \<Longrightarrow> i \<le> k + 1 \<Longrightarrow> re_len = int (length pat) \<Longrightarrow>
   re_at pat k = Some (CHR ''('') \<Longrightarrow> re_at pat (k + 1) = Some (CHR '')'') \<Longrightarrow>
   \<exists>msg. scan_loop pat re_len i depth info = Some (Inl msg)"
proof (induction pat re_len i depth info rule: scan_loop.induct)
  case (1 pat re_len i depth info)
  from "1.prems"(6) have k1: "k + 1 < int (length pat)" "0 \<le> k + 1"
    by (auto simp: re_at_def split: if_splits)
  from "1.prems"(5) have k0: "0 \<le> k"
    by (auto simp: re_at_def split: if_splits)
  have lt: "i < re_len" using k1 "1.prems"(3,4) by simp
  then have i: "0 \<le> i" "i < int (length pat)" using "1.prems" by simp_all
  define step :: int where "step = (if pat ! nat i = CHR 0x5C then 2 else 1)"
  have step: "get_op_len pat i = Some step" "1 \<le> step" "step \<le> 2"
    using i by (simp_all add: get_op_len_def re_at_def step_def)
  have stepk: "step = 1" if "i = k"
    using that i "1.prems"(5) by (simp add: step_def re_at_def)
  from scan_step_ok[OF "1.prems"(1) i] obtain res where
    res: "scan_step pat i depth info = Some res"
    and inv: "case res of Inl msg \<Rightarrow> True | Inr (depth', info') \<Rightarrow> scan_ok pat (i + 1) depth' info'"
    by auto
  show ?case
  proof (cases res)
    case (Inl msg)
    then have "scan_loop pat re_len i depth info = Some (Inl msg)"
      using lt step(1) res by (simp add: scan_loop.simps[of pat re_len i depth info])
    then show ?thesis by simp
  next
    case (Inr p)
    obtain depth' info' where p: "p = (depth', info')" by (cases p)
    have ne: "i \<noteq> k + 1"
    proof
      assume e: "i = k + 1"
      from scan_step_close[OF "1.prems"(1) "1.prems"(6)[folded e]] obtain info'' where
        "scan_step pat i depth info =
          Some (if depth - 1 < 0 then Inl Unbalanced_brackets
           else if i > 0 \<and> re_at pat (i - 1) = Some (CHR ''('') then Inl No_match
           else Inr (depth - 1, info''))"
        by blast
      with res Inr e k0 "1.prems"(5) show False
        by (auto split: if_splits)
    qed
    then have le: "i + step \<le> k + 1"
      using "1.prems"(3) step(3) stepk by (cases "i = k") auto
    have ok': "scan_ok pat (i + step) depth' info'"
      using inv Inr p step(2) scan_ok_mono[of pat "i + 1" depth' info' "i + step"] by simp
    have "scan_loop pat re_len i depth info = scan_loop pat re_len (i + step) depth' info'"
      using lt step(1) res Inr p by (simp add: scan_loop.simps[of pat re_len i depth info])
    moreover have "\<exists>msg. scan_loop pat re_len (i + step) depth' info' = Some (Inl msg)"
      using "1.IH"[OF lt step(1) res[unfolded Inr p] refl refl ok' _ le "1.prems"(4,5,6)] i step(2)
      by simp
    ultimately show ?thesis by simp
  qed
qed

lemma empty_pair_rejected:
  assumes "re_at pat k = Some (CHR ''('')" and "re_at pat (k + 1) = Some (CHR '')'')"
  shows "\<exists>msg. slre_match pat subj cps = Some (0, \<lparr>error_msg = msg, caps = cps\<rparr>)"
proof -
  from assms(1) have k0: "0 \<le> k"
    by (auto simp: re_at_def split: if_splits)
  have "scan_ok pat 0 0 (scan_init (int (length pat)))"
    by (simp add: scan_ok_def span_ok_def scan_init_def)
  from scan_loop_rejects_pair[OF this order_refl _ refl assms] k0 obtain msg where
    "scan_loop pat (int (length pat)) 0 0 (scan_init (int (length pat))) = Some (Inl msg)"
    by auto
  then show ?thesis
    by (simp add: slre_match_def foo_def analyse_def FAIL_def)
qed

lemma empty_pair_no_match:
  assumes o: "re_at pat k = Some (CHR ''('')" and c: "re_at pat (k + 1) = Some (CHR '')'')"
    and r: "scan_reaches pat (k, depth, info)" and n: "num_brackets info < MAX_BRACKETS"
  shows "slre_match pat subj cps = Some (0, \<lparr>error_msg = No_match, caps = cps\<rparr>)"
proof -
  let ?L = "int (length pat)"
  from o have k: "0 \<le> k" "k < ?L"
    by (auto simp: re_at_def split: if_splits)
  from scan_reaches_ok[OF r] have inv: "scan_ok pat k depth info"
    and eq: "scan_loop pat ?L 0 0 (scan_init ?L) = scan_loop pat ?L k depth info"
    by simp_all
  define info1 where "info1 = info\<lparr>brackets := brackets info @
              [\<lparr>ptr = k + 1, len = - 1, branches = 0, num_branches = 0\<rparr>]\<rparr>"
  have s1: "scan_step pat k depth info = Some (Inr (depth + 1, info1))"
    using n by (simp add: scan_step_def o info1_def)
  have g1: "get_op_len pat k = Some 1"
    using o by (simp add: get_op_len_def)
  have e1: "scan_loop pat ?L k depth info = scan_loop pat ?L (k + 1) (depth + 1) info1"
    using k s1 g1 by (simp add: scan_loop.simps[of pat ?L k depth info])
  from scan_step_ok[OF inv k] s1 have inv1: "scan_ok pat (k + 1) (depth + 1) info1"
    by simp
  from inv have d: "0 \<le> depth" by (simp add: scan_ok_def)
  from scan_step_close[OF inv1 c] d k o
  have s2: "scan_step pat (k + 1) (depth + 1) info1 = Some (Inl No_match)"
    by auto
  have g2: "get_op_len pat (k + 1) = Some 1"
    using c by (simp add: get_op_len_def)
  have k1: "k + 1 < ?L"
    using c by (auto simp: re_at_def split: if_splits)
  have "scan_loop pat ?L (k + 1) (depth + 1) info1 = Some (Inl No_match)"
    using k1 s2 g2 by (simp add: scan_loop.simps[of pat ?L "k + 1" "depth + 1" info1])
  then show ?thesis
    by (simp add: slre_match_def foo_def analyse_def FAIL_def eq e1)
qed

lemma sort_inner_inv:
  "n = length bs \<Longrightarrow> i < n \<Longrightarrow> i < j \<Longrightarrow> prefix_done bs i \<Longrightarrow>
   (\<forall>b. i < b \<and> b < j \<longrightarrow> branch_key bs i \<le> branch_key bs b) \<Longrightarrow>
   prefix_done (sort_inner n bs i j) (i + 1) \<and> length (sort_inner n bs i j) = length bs"
proof (induction n bs i j rule: sort_inner.induct)
  case (1 n bs i j)
  show ?case
  proof (cases "j < n")
    case False
    then have e: "sort_inner n bs i j = bs"
      by (simp add: sort_inner.simps[of n bs i j])
    have "prefix_done bs (i + 1)"
      unfolding prefix_done_def
    proof (intro allI impI)
      fix a b assume h: "a < i + 1 \<and> a < b \<and> b < length bs"
      show "branch_key bs a \<le> branch_key bs b"
      proof (cases "a = i")
        case True
        then show ?thesis using h False "1.prems"(1,5) by auto
      next
        case False
        then show ?thesis using h "1.prems"(4) by (auto simp: prefix_done_def)
      qed
    qed
    then show ?thesis by (simp add: e)
  next
    case True
    define bs' where "bs' = (if bracket_index (bs ! i) > bracket_index (bs ! j)
           then bs[i := bs ! j, j := bs ! i] else bs)"
    have e: "sort_inner n bs i j = sort_inner n bs' i (j + 1)"
      using True by (simp add: sort_inner.simps[of n bs i j] bs'_def)
    have l: "length bs' = length bs" by (simp add: bs'_def)
    have ij: "i < length bs" "j < length bs" "i \<noteq> j"
      using True "1.prems" by auto
    have k: "branch_key bs' k = (if bracket_index (bs ! i) > bracket_index (bs ! j)
        then (if k = i then branch_key bs j else if k = j then branch_key bs i else branch_key bs k) else branch_key bs k)"
      if "k < length bs" for k
      using that ij by (auto simp: bs'_def branch_key_def nth_list_update)
    have p: "prefix_done bs' i"
      unfolding prefix_done_def
    proof (intro allI impI)
      fix a b assume h: "a < i \<and> a < b \<and> b < length bs'"
      then have "branch_key bs a \<le> branch_key bs b" "branch_key bs a \<le> branch_key bs i" "branch_key bs a \<le> branch_key bs j"
        using "1.prems"(3,4) ij l by (auto simp: prefix_done_def)
      then show "branch_key bs' a \<le> branch_key bs' b"
        using h l ij "1.prems"(3) k[of a] k[of b] by (auto split: if_splits)
    qed
    have q: "\<forall>b. i < b \<and> b < j + 1 \<longrightarrow> branch_key bs' i \<le> branch_key bs' b"
    proof (intro allI impI)
      fix b assume h: "i < b \<and> b < j + 1"
      then have "b < length bs" using ij by simp
      show "branch_key bs' i \<le> branch_key bs' b"
      proof (cases "b = j")
        case True
        then show ?thesis using k[of i] k[of j] ij by (auto simp: branch_key_def)
      next
        case False
        then have "branch_key bs i \<le> branch_key bs b" using h "1.prems"(5) by simp
        then show ?thesis
          using k[of i] k[of b] ij \<open>b < length bs\<close> False h by (auto simp: branch_key_def)
      qed
    qed
    from "1.IH"[OF True, folded bs'_def] "1.prems"(1,2,3) l p q
    show ?thesis unfolding e by simp
  qed
qed

lemma sort_outer_inv:
  "n = length bs \<Longrightarrow> prefix_done bs i \<Longrightarrow>
   prefix_done (sort_outer n bs i) (length bs) \<and> length (sort_outer n bs i) = length bs"
proof (induction n bs i rule: sort_outer.induct)
  case (1 n bs i)
  show ?case
  proof (cases "i < n")
    case False
    then have "sort_outer n bs i = bs"
      by (simp add: sort_outer.simps[of n bs i])
    moreover have "prefix_done bs (length bs)"
      using "1.prems" False by (auto simp: prefix_done_def)
    ultimately show ?thesis by simp
  next
    case True
    from sort_inner_inv[OF "1.prems"(1) True _ "1.prems"(2), of "i + 1"]
    have a: "prefix_done (sort_inner n bs i (i + 1)) (i + 1)"
      and b: "length (sort_inner n bs i (i + 1)) = length bs"
      by auto
    have e: "sort_outer n bs i = sort_outer n (sort_inner n bs i (i + 1)) (i + 1)"
      using True by (simp add: sort_outer.simps[of n bs i])
    from "1.IH"[OF True _ a] b "1.prems"(1)
    show ?thesis
      unfolding e by simp
  qed
qed

lemma sort_outer_sorted:
  "sorted (map bracket_index (sort_outer (length bs) bs 0))"
proof -
  have "prefix_done bs 0" by (simp add: prefix_done_def)
  from sort_outer_inv[OF refl this] show ?thesis
    by (auto simp: sorted_iff_nth_mono_less prefix_done_def branch_key_def)
qed

lemma analyse_branches_sorted:
  "analyse pat re_len = Some (Inr info) \<Longrightarrow> sorted (map bracket_index (branch_tab info))"
  by (auto simp: analyse_def setup_branch_points_def Let_def sort_outer_sorted
      split: option.splits sum.splits if_splits)

lemma branch_offsets_props:
  assumes "branch_offsets info b = Some os"
  shows "num_branches b = int (length os)"
    and "m < length os \<Longrightarrow>
         map_option schlong (nth_opt (branch_tab info) (branches b + int m)) = Some (os ! m)"
proof -
  from assms have rng: "0 \<le> branches b" "0 \<le> num_branches b"
      "branches b + num_branches b \<le> int (length (branch_tab info))"
    and os: "os = map schlong (take (nat (num_branches b)) (drop (nat (branches b)) (branch_tab info)))"
    by (auto simp: branch_offsets_def split: if_splits)
  have len: "length os = nat (num_branches b)"
    using rng by (simp add: os)
  then show "num_branches b = int (length os)"
    using rng by simp
  assume m: "m < length os"
  have eq: "nat (branches b + int m) = nat (branches b) + m"
    using rng by (simp add: nat_add_distrib)
  have lt: "nat (branches b) + m < length (branch_tab info)"
    using rng m len by linarith
  have "os ! m = schlong (branch_tab info ! (nat (branches b) + m))"
    using m len lt by (simp add: os)
  then show "map_option schlong (nth_opt (branch_tab info) (branches b + int m)) = Some (os ! m)"
    using rng lt by (simp add: nth_opt_def eq)
qed

lemma alt_ptr_offsets:
  assumes "branch_offsets info b = Some os" and "i \<le> length os"
  shows "alt_ptr info b (int i) = Some (if i = 0 then ptr b else os ! (i - 1) + 1)"
proof (cases i)
  case 0
  then show ?thesis by (simp add: alt_ptr_def)
next
  case (Suc m)
  then have "m < length os" using assms(2) by simp
  from branch_offsets_props(2)[OF assms(1) this] obtain br where
    "nth_opt (branch_tab info) (branches b + int m) = Some br" "schlong br = os ! m"
    by auto
  then show ?thesis
    using Suc by (simp add: alt_ptr_def add.commute)
qed

lemma alt_len_offsets:
  assumes "branch_offsets info b = Some os" and "i \<le> length os"
  shows "alt_len info b (int i) p =
     Some (if os = [] then len b else if i = length os then ptr b + len b - p else os ! i - p)"
proof (cases "i = length os")
  case True
  then show ?thesis
    using branch_offsets_props(1)[OF assms(1)] by (simp add: alt_len_def)
next
  case False
  then have i: "i < length os" using assms(2) by simp
  from branch_offsets_props(2)[OF assms(1) i] obtain br where
    "nth_opt (branch_tab info) (branches b + int i) = Some br" "schlong br = os ! i"
    by auto
  then show ?thesis
    using False i branch_offsets_props(1)[OF assms(1)] by (auto simp: alt_len_def)
qed

lemma doh_loop_windows:
  assumes b: "nth_opt (brackets info) bi = Some b"
    and os: "branch_offsets info b = Some os"
  shows "i \<le> length os \<Longrightarrow> k = length os - i \<Longrightarrow>
     run pat subj info (Doh_loop s s_len bi (int i)) st =
       bar_each pat subj info s s_len bi
         (alt_windows (if i = 0 then ptr b else os ! (i - 1) + 1) (ptr b + len b) (drop i os)) r st"
proof (induction k arbitrary: i st r)
  case 0
  then have i: "i = length os" by simp
  note n = branch_offsets_props(1)[OF os]
  let ?p = "if i = 0 then ptr b else os ! (i - 1) + 1"
  have p: "alt_ptr info b (int i) = Some ?p"
    using alt_ptr_offsets[OF os, of i] i by simp
  have l: "alt_len info b (int i) ?p = Some (ptr b + len b - ?p)"
    using alt_len_offsets[OF os, of i ?p] i by auto
  have nlt: "\<not> int i < num_branches b"
    using i n by simp
  have "run pat subj info (Doh_loop s s_len bi (int i)) st
      = bar pat subj info ?p (ptr b + len b - ?p) s s_len bi st"
    by (subst doh_loop_step) (simp add: b p l bar_def nlt)
  then show ?case
    using i by (simp add: split_def)
next
  case (Suc k)
  then have i: "i < length os" and k: "k = length os - (i + 1)" by auto
  note n = branch_offsets_props(1)[OF os]
  let ?p = "if i = 0 then ptr b else os ! (i - 1) + 1"
  have p: "alt_ptr info b (int i) = Some ?p"
    using alt_ptr_offsets[OF os, of i] i by simp
  have l: "alt_len info b (int i) ?p = Some (os ! i - ?p)"
    using alt_len_offsets[OF os, of i ?p] i by auto
  have lt: "int i < num_branches b"
    using i n by simp
  have d: "drop i os = os ! i # drop (i + 1) os"
    using i by (simp add: Cons_nth_drop_Suc)
  have step: "run pat subj info (Doh_loop s s_len bi (int i)) st =
      do {
        (r', st1) \<leftarrow> bar pat subj info ?p (os ! i - ?p) s s_len bi st;
        run pat subj info (Doh_loop s s_len bi (int (i + 1))) st1
      }"
    by (subst doh_loop_step) (simp add: b p l bar_def lt add.commute)
  have ih: "run pat subj info (Doh_loop s s_len bi (int (i + 1))) st1 =
       bar_each pat subj info s s_len bi
         (alt_windows (os ! i + 1) (ptr b + len b) (drop (i + 1) os)) r' st1" for st1 r'
    using Suc.IH[of "i + 1" st1 r'] i k by simp
  have f: "(\<lambda>(r' :: int, st1). run pat subj info (Doh_loop s s_len bi (int (i + 1))) st1) =
       (\<lambda>(r', st1). bar_each pat subj info s s_len bi
         (alt_windows (os ! i + 1) (ptr b + len b) (drop (i + 1) os)) r' st1)"
  proof (rule ext)
    fix x :: "int \<times> mstate"
    show "(case x of (r', st1) \<Rightarrow> run pat subj info (Doh_loop s s_len bi (int (i + 1))) st1) =
       (case x of (r', st1) \<Rightarrow> bar_each pat subj info s s_len bi
         (alt_windows (os ! i + 1) (ptr b + len b) (drop (i + 1) os)) r' st1)"
      by (cases x) (simp only: prod.case, rule ih)
  qed
  show ?case
    unfolding step d
    by (simp only: alt_windows.simps bar_each.simps fst_conv snd_conv f)
qed

lemma doh_windows:
  assumes "nth_opt (brackets info) bi = Some b" and "branch_offsets info b = Some os"
  shows "doh pat subj info s s_len bi st =
       bar_each pat subj info s s_len bi (alt_windows (ptr b) (ptr b + len b) os) 0 st"
  using doh_loop_windows[OF assms, of 0 "length os" pat subj s s_len st 0]
  by (simp add: doh_def)

section \<open>The branch table after analysis\<close>

text \<open>
  C3. The claim: after analysis the branch array is stably sorted, in nondecreasing
  order of \<open>bracket_index\<close>, branches of one bracket keeping their left-to-right
  order. The order is nondecreasing (\<open>analyse_branches_sorted\<close>). The source's comment
  asks for a stable sort, but its exchange sort swaps entries that are not adjacent: for
  the pattern \<open>(a|b|c)|d\<close> the scan records the two branches of bracket 1 at offsets 2
  and 4 in this order, and the sort leaves them in the order 4, 2.
\<close>

theorem branch_sort_not_stable:
  "scanned_branch_order ''(a|b|c)|d'' = Some (Inr [(1, 2), (1, 4), (0, 7)])
   \<and> branch_order ''(a|b|c)|d'' = Some (Inr [(0, 7), (1, 4), (1, 2)])"
proof -
  have "scanned_branch_order ''(a|b|c)|d'' = Some (Inr [(1, 2), (1, 4), (0, 7)])"
    by code_simp
  moreover have "branch_order ''(a|b|c)|d'' = Some (Inr [(0, 7), (1, 4), (1, 2)])"
    by code_simp
  ultimately show ?thesis
    by simp
qed

section \<open>The end anchor\<close>

text \<open>
  Inside the loop of bar a \<open>$\<close> that no quantifier follows fails; behind the loop, with
  pattern bytes left, bar returns \<open>j\<close> only when what is left is the single byte \<open>$\<close>,
  and then the loop has ended because \<open>j\<close> has come to \<open>s_len\<close>.
\<close>

lemma dollar_in_sequence_fails:
  assumes "i < re_len" and "j < s_len"
    and "re_at pat (re + i) = Some (CHR ''$'')"
    and "(if i + 1 < re_len then is_quantifier pat (re + i + 1) else Some False) = Some False"
  shows "run pat subj info (Bar_loop re re_len s s_len bi i j) st =
           Some (0, st\<lparr>error_msg := No_match\<rparr>)"
proof -
  have g: "get_op_len pat (re + i) = Some 1" and q: "is_quantifier pat (re + i) = Some False"
    using assms(3) by (simp_all add: get_op_len_def is_quantifier_def)
  have a: "simple_atom pat subj (re + i) (s + j) j = Some (Inl No_match)"
    using assms(3) by (simp add: simple_atom_def)
  show ?thesis
    using assms(4)
    by (subst bar_loop_atom[OF assms(1,2) g q _ _ assms(3)]) (simp_all add: a FAIL_def)
qed

lemma dollar_behind_loop:
  assumes "i < re_len" and "\<not> j < s_len" and "re_at pat (re + i) = Some c"
  shows "run pat subj info (Bar_loop re re_len s s_len bi i j) st =
           (if c = CHR ''$'' \<and> i + 1 = re_len then Some (j, st)
            else Some (0, st\<lparr>error_msg := No_match\<rparr>))"
  using assms by (subst bar_loop_exit) (auto simp: FAIL_def)

text \<open>
  C5. The claim: for a pattern of the form \<open>p$\<close> a positive result is the length of
  the subject. In bar the bracket index \<open>bi\<close> is raised by one at every group of the
  sequence, whatever number of groups was nested in the previous one, so after
  \<open>((ab))\<close> the group \<open>(c)\<close> is matched as bracket 2, which is \<open>ab\<close>, and the pattern
  cursor jumps over the anchor: the pattern \<open>((ab))(c)$\<close> matches the subject
  \<open>ababX\<close> of length 5 with result 4.
\<close>

theorem dollar_skipped_after_nested_group:
  "slre_result ''((ab))(c)$'' ''ababX'' = Some (4, No_match)"
  by code_simp

section \<open>The branch dispatcher\<close>

text \<open>
  What doh does for every bracket pair (\<open>doh_windows\<close>): it runs bar on the windows of
  the pattern between the offsets that the branch table holds for the pair, in the order
  of the table, whatever each call returns, and its result is the result of the last call.
  So \<open>k(xx|yy)|ca|bc\<close> on \<open>abcabc\<close> gives 3, and \<open>a|b\<close> does not match \<open>a\<close>, which its
  first alternative alone matches.
\<close>

lemma last_alternative_examples:
  "slre_result ''k(xx|yy)|ca|bc'' ''abcabc'' = Some (3, No_match)
   \<and> slre_result ''a'' ''a'' = Some (1, No_match)
   \<and> slre_result ''a|b'' ''a'' = Some (0, No_match)"
proof -
  have "slre_result ''k(xx|yy)|ca|bc'' ''abcabc'' = Some (3, No_match)"
    by code_simp
  moreover have "slre_result ''a'' ''a'' = Some (1, No_match)"
    by code_simp
  moreover have "slre_result ''a|b'' ''a'' = Some (0, No_match)"
    by code_simp
  ultimately show ?thesis
    by simp
qed

text \<open>
  C1. The claim: for every bracket pair doh tries every alternative of the bracket in
  order and returns the result of the last one. The windows doh runs are those of the
  branch table, and the sort of setup_branch_points does not keep the branches of a
  bracket in pattern order. In \<open>(a|b|c)|d\<close> the branches of bracket 1 are at offsets 2
  and 4 and the table holds them as 4, 2: on the subject \<open>c\<close> doh runs bar on the windows
  (1, 3), (5, -3) and (3, 3), which are \<open>a|b\<close>, nothing and \<open>b|c\<close>, and returns 0, where
  the last alternative of the bracket, the window (5, 1) with \<open>c\<close>, matches with result 1.
\<close>

theorem doh_tries_misordered_windows:
  "analyse ''(a|b|c)|d'' 9 = Some (Inr
     \<lparr>brackets = [\<lparr>ptr = 0, len = 9, branches = 0, num_branches = 1\<rparr>,
                  \<lparr>ptr = 1, len = 5, branches = 1, num_branches = 2\<rparr>],
      branch_tab = [\<lparr>bracket_index = 0, schlong = 7\<rparr>, \<lparr>bracket_index = 1, schlong = 4\<rparr>,
                    \<lparr>bracket_index = 1, schlong = 2\<rparr>]\<rparr>)
   \<and> doh ''(a|b|c)|d'' ''c''
     \<lparr>brackets = [\<lparr>ptr = 0, len = 9, branches = 0, num_branches = 1\<rparr>,
                  \<lparr>ptr = 1, len = 5, branches = 1, num_branches = 2\<rparr>],
      branch_tab = [\<lparr>bracket_index = 0, schlong = 7\<rparr>, \<lparr>bracket_index = 1, schlong = 4\<rparr>,
                    \<lparr>bracket_index = 1, schlong = 2\<rparr>]\<rparr>
     0 1 1 \<lparr>error_msg = No_match, caps = None\<rparr>
     = bar_each ''(a|b|c)|d'' ''c''
     \<lparr>brackets = [\<lparr>ptr = 0, len = 9, branches = 0, num_branches = 1\<rparr>,
                  \<lparr>ptr = 1, len = 5, branches = 1, num_branches = 2\<rparr>],
      branch_tab = [\<lparr>bracket_index = 0, schlong = 7\<rparr>, \<lparr>bracket_index = 1, schlong = 4\<rparr>,
                    \<lparr>bracket_index = 1, schlong = 2\<rparr>]\<rparr>
     0 1 1 [(1, 3), (5, - 3), (3, 3)] 0 \<lparr>error_msg = No_match, caps = None\<rparr>
   \<and> doh ''(a|b|c)|d'' ''c''
     \<lparr>brackets = [\<lparr>ptr = 0, len = 9, branches = 0, num_branches = 1\<rparr>,
                  \<lparr>ptr = 1, len = 5, branches = 1, num_branches = 2\<rparr>],
      branch_tab = [\<lparr>bracket_index = 0, schlong = 7\<rparr>, \<lparr>bracket_index = 1, schlong = 4\<rparr>,
                    \<lparr>bracket_index = 1, schlong = 2\<rparr>]\<rparr>
     0 1 1 \<lparr>error_msg = No_match, caps = None\<rparr> = Some (0, \<lparr>error_msg = No_match, caps = None\<rparr>)
   \<and> bar ''(a|b|c)|d'' ''c''
     \<lparr>brackets = [\<lparr>ptr = 0, len = 9, branches = 0, num_branches = 1\<rparr>,
                  \<lparr>ptr = 1, len = 5, branches = 1, num_branches = 2\<rparr>],
      branch_tab = [\<lparr>bracket_index = 0, schlong = 7\<rparr>, \<lparr>bracket_index = 1, schlong = 4\<rparr>,
                    \<lparr>bracket_index = 1, schlong = 2\<rparr>]\<rparr>
     5 1 0 1 1 \<lparr>error_msg = No_match, caps = None\<rparr> = Some (1, \<lparr>error_msg = No_match, caps = None\<rparr>)"
proof -
  let ?I = "\<lparr>brackets = [\<lparr>ptr = 0, len = 9, branches = 0, num_branches = 1\<rparr>,
                  \<lparr>ptr = 1, len = 5, branches = 1, num_branches = 2\<rparr>],
      branch_tab = [\<lparr>bracket_index = 0, schlong = 7\<rparr>, \<lparr>bracket_index = 1, schlong = 4\<rparr>,
                    \<lparr>bracket_index = 1, schlong = 2\<rparr>]\<rparr>"
  let ?b = "\<lparr>ptr = 1, len = 5, branches = 1, num_branches = 2\<rparr>"
  let ?st = "\<lparr>error_msg = No_match, caps = None\<rparr>"
  have a: "analyse ''(a|b|c)|d'' 9 = Some (Inr ?I)"
    by code_simp
  have b: "nth_opt (brackets ?I) 1 = Some ?b"
    by (simp add: nth_opt_def)
  have os: "branch_offsets ?I ?b = Some [4, 2]"
    by (simp add: branch_offsets_def)
  have w: "alt_windows (ptr ?b) (ptr ?b + len ?b) [4, 2] = [(1, 3), (5, - 3), (3, 3)]"
    by simp
  have d: "doh ''(a|b|c)|d'' ''c'' ?I 0 1 1 ?st = Some (0, ?st)"
    by code_simp
  have c: "bar ''(a|b|c)|d'' ''c'' ?I 5 1 0 1 1 ?st = Some (1, ?st)"
    by code_simp
  from doh_windows[OF b os, of "''(a|b|c)|d''" "''c''" 0 1 ?st, unfolded w] a d c
  show ?thesis
    by simp
qed

section \<open>Greedy and non-greedy repetition\<close>



section \<open>The start anchor in the driver\<close>

text \<open>
  C4. When the first byte of the pattern is \<open>^\<close>, the driver calls doh once, at anchor
  offset 0 of the subject, and the call returns what that one attempt returned: a positive
  result is the end of a match that begins at offset 0. (An empty subject is never
  tried.)
\<close>

theorem caret_pattern_tried_at_offset_0_only:
  assumes "re_at pat 0 = Some (CHR ''^'')"
  shows "slre_match pat subj cps =
     (case analyse pat (int (length pat)) of
        None \<Rightarrow> None
      | Some (Inl msg) \<Rightarrow> Some (0, \<lparr>error_msg = msg, caps = cps\<rparr>)
      | Some (Inr info) \<Rightarrow>
          if subj = [] then Some (0, \<lparr>error_msg = No_match, caps = cps\<rparr>)
          else doh pat subj info 0 (int (length subj)) 0 \<lparr>error_msg = No_match, caps = cps\<rparr>)"
proof -
  have "match_loop pat subj info (int (length subj)) 0 0 st =
      (if subj = [] then Some (0, st) else doh pat subj info 0 (int (length subj)) 0 st)" for info st
    using assms by (cases "doh pat subj info 0 (int (length subj)) 0 st")
      (auto simp: match_loop.simps[of pat subj info "int (length subj)" 0 0 st])
  then show ?thesis
    by (simp add: slre_match_def foo_def FAIL_def split: option.splits sum.splits)
qed

theorem caret_pattern_tried_at_offset_0_only_witness:
  "slre_match ''^o'' ''fooklmn'' None = doh ''^o'' ''fooklmn'' \<lparr>brackets = [\<lparr>ptr = 0, len = 2, branches = 0, num_branches = 0\<rparr>], branch_tab = []\<rparr> 0 7 0 \<lparr>error_msg = No_match, caps = None\<rparr>
   \<and> doh ''^o'' ''fooklmn'' \<lparr>brackets = [\<lparr>ptr = 0, len = 2, branches = 0, num_branches = 0\<rparr>], branch_tab = []\<rparr> 0 7 0 \<lparr>error_msg = No_match, caps = None\<rparr> = Some (0, \<lparr>error_msg = No_match, caps = None\<rparr>)
   \<and> slre_result ''o'' ''fooklmn'' = Some (2, No_match)"
proof -
  have h: "re_at ''^o'' 0 = Some (CHR ''^'')"
    by (simp add: re_at_def)
  have a: "analyse ''^o'' (int (length ''^o'')) = Some (Inr \<lparr>brackets = [\<lparr>ptr = 0, len = 2, branches = 0, num_branches = 0\<rparr>], branch_tab = []\<rparr>)"
    by code_simp
  have d: "doh ''^o'' ''fooklmn'' \<lparr>brackets = [\<lparr>ptr = 0, len = 2, branches = 0, num_branches = 0\<rparr>], branch_tab = []\<rparr> 0 7 0 \<lparr>error_msg = No_match, caps = None\<rparr> = Some (0, \<lparr>error_msg = No_match, caps = None\<rparr>)"
    by code_simp
  have e: "slre_result ''o'' ''fooklmn'' = Some (2, No_match)"
    by code_simp
  from caret_pattern_tried_at_offset_0_only[OF h, of "''fooklmn''" None] d e show ?thesis
    unfolding a by simp
qed

section \<open>The start anchor in bar\<close>

text \<open>
  C6. At the head of an iteration of bar with \<open>re[i]\<close> the byte \<open>^\<close> and no quantifier
  behind it: when the subject cursor \<open>j\<close> is not 0 the call of bar fails, returning 0 with
  the reason "No match"; when \<open>j = 0\<close> the loop goes on at \<open>i + 1\<close> with the same \<open>j\<close>
  and the same state, so the atom consumes nothing.
\<close>

theorem caret_needs_cursor_0:
  assumes "i < re_len" and "j < s_len"
    and "re_at pat (re + i) = Some (CHR ''^'')"
    and "\<not> (i + 1 < re_len \<and> is_quantifier pat (re + i + 1) = Some True)"
  shows "run pat subj info (Bar_loop re re_len s s_len bi i j) st =
           (if j \<noteq> 0 then Some (0, st\<lparr>error_msg := No_match\<rparr>)
            else run pat subj info (Bar_loop re re_len s s_len bi (i + 1) j) st)"
proof -
  have in_range: "0 \<le> re + i" "re + i < int (length pat)"
    using assms(3) by (auto simp: re_at_def split: if_splits)
  have step: "get_op_len pat (re + i) = Some 1"
    using assms(3) by (simp add: get_op_len_def)
  have q: "is_quantifier pat (re + i) = Some False"
    using assms(3) by (simp add: is_quantifier_def)
  obtain b where b: "is_quantifier pat (re + i + 1) = Some b"
    using in_range is_quantifier_defined[of "re + i + 1" pat] by auto
  have la: "(if i + 1 < re_len then is_quantifier pat (re + i + 1) else Some False) = Some False"
    using assms(4) b by (cases b) auto
  have atom: "simple_atom pat subj (re + i) (s + j) j = Some (if j \<noteq> 0 then Inl No_match else Inr 0)"
    using assms(3) by (simp add: simple_atom_def)
  show ?thesis
    by (subst run.simps) (simp add: assms(1,2,3) step q la atom FAIL_def)
qed

theorem caret_needs_cursor_0_witness:
  "run ''o^'' ''fooklmn'' \<lparr>brackets = [\<lparr>ptr = 0, len = 2, branches = 0, num_branches = 0\<rparr>], branch_tab = []\<rparr> (Bar_loop 0 2 0 7 0 1 1) \<lparr>error_msg = Internal_error, caps = None\<rparr>
     = Some (0, \<lparr>error_msg = No_match, caps = None\<rparr>)
   \<and> run ''^f'' ''fooklmn'' \<lparr>brackets = [\<lparr>ptr = 0, len = 2, branches = 0, num_branches = 0\<rparr>], branch_tab = []\<rparr> (Bar_loop 0 2 0 7 0 0 0) \<lparr>error_msg = No_match, caps = None\<rparr>
     = run ''^f'' ''fooklmn'' \<lparr>brackets = [\<lparr>ptr = 0, len = 2, branches = 0, num_branches = 0\<rparr>], branch_tab = []\<rparr> (Bar_loop 0 2 0 7 0 1 0) \<lparr>error_msg = No_match, caps = None\<rparr>
   \<and> run ''^f'' ''fooklmn'' \<lparr>brackets = [\<lparr>ptr = 0, len = 2, branches = 0, num_branches = 0\<rparr>], branch_tab = []\<rparr> (Bar_loop 0 2 0 7 0 1 0) \<lparr>error_msg = No_match, caps = None\<rparr> = Some (1, \<lparr>error_msg = No_match, caps = None\<rparr>)"
proof -
  have a: "(1::int) < 2" "(1::int) < 7" "re_at ''o^'' (0 + 1) = Some (CHR ''^'')"
     "\<not> ((1::int) + 1 < 2 \<and> is_quantifier ''o^'' (0 + 1 + 1) = Some True)"
    by (simp_all add: re_at_def)
  have b: "(0::int) < 2" "(0::int) < 7" "re_at ''^f'' (0 + 0) = Some (CHR ''^'')"
     "\<not> ((0::int) + 1 < 2 \<and> is_quantifier ''^f'' (0 + 0 + 1) = Some True)"
    by (simp_all add: re_at_def is_quantifier_def)
  have c: "run ''^f'' ''fooklmn'' \<lparr>brackets = [\<lparr>ptr = 0, len = 2, branches = 0, num_branches = 0\<rparr>], branch_tab = []\<rparr> (Bar_loop 0 2 0 7 0 1 0) \<lparr>error_msg = No_match, caps = None\<rparr> = Some (1, \<lparr>error_msg = No_match, caps = None\<rparr>)"
    by code_simp
  from caret_needs_cursor_0[OF a, of "''fooklmn''" "\<lparr>brackets = [\<lparr>ptr = 0, len = 2, branches = 0, num_branches = 0\<rparr>], branch_tab = []\<rparr>" 0 0 "\<lparr>error_msg = Internal_error, caps = None\<rparr>"]
       caret_needs_cursor_0[OF b, of "''fooklmn''" "\<lparr>brackets = [\<lparr>ptr = 0, len = 2, branches = 0, num_branches = 0\<rparr>], branch_tab = []\<rparr>" 0 0 "\<lparr>error_msg = No_match, caps = None\<rparr>"] c
  show ?thesis
    by simp
qed

section \<open>The result of a quantifier\<close>

text \<open>
  C7. At the head of an iteration of bar whose atom is followed by \<open>+\<close> or \<open>*\<close>: when the
  repetition loop has ended with confirmed end offset \<open>nj\<close>, bar after \<open>+\<close> fails
  with the reason "No match" exactly when \<open>nj = 0\<close> and returns \<open>nj\<close> otherwise, and bar
  after \<open>*\<close> returns \<open>nj\<close> in every case, also when it is 0, leaving the reason as the loop
  left it.
\<close>

theorem plus_fails_on_zero_star_returns_nj:
  assumes "i < re_len" and "j < s_len"
    and "is_quantifier pat (re + i) = Some False"
    and "get_op_len pat (re + i) = Some step"
    and "i + step < re_len"
    and "re_at pat (re + i + step) = Some q" and "q = CHR ''+'' \<or> q = CHR ''*''"
    and "quant_tail pat re re_len i step = Some (non_greedy, ni)"
    and "run pat subj info (Quant_loop re re_len s s_len bi i step ni non_greedy j 0) st = Some (nj, st1)"
  shows "run pat subj info (Bar_loop re re_len s s_len bi i j) st =
           (if q = CHR ''+'' \<and> nj = 0 then Some (0, st1\<lparr>error_msg := No_match\<rparr>) else Some (nj, st1))"
proof -
  have step: "0 < step"
    using assms(4) by (auto simp: get_op_len_def split: bind_splits if_splits)
  have la: "is_quantifier pat (re + i + step) = Some True"
    using assms(6,7) by (auto simp: is_quantifier_def)
  have nq: "q \<noteq> CHR ''?''" using assms(7) by auto
  show ?thesis
    using step nq assms(7)
    by (subst run.simps) (auto simp add: assms(1-6,8,9) la FAIL_def)
qed

theorem plus_fails_on_zero_star_returns_nj_witness:
  "run ''p+'' ''fooklmn'' \<lparr>brackets = [\<lparr>ptr = 0, len = 2, branches = 0, num_branches = 0\<rparr>], branch_tab = []\<rparr> (Bar_loop 0 2 0 7 0 0 0) \<lparr>error_msg = Internal_error, caps = None\<rparr>
     = Some (0, \<lparr>error_msg = No_match, caps = None\<rparr>)
   \<and> run ''.*'' ''fooklmn'' \<lparr>brackets = [\<lparr>ptr = 0, len = 2, branches = 0, num_branches = 0\<rparr>], branch_tab = []\<rparr> (Bar_loop 0 2 0 7 0 0 0) \<lparr>error_msg = Internal_error, caps = None\<rparr>
     = Some (7, \<lparr>error_msg = No_match, caps = None\<rparr>)
   \<and> run ''p*'' ''fooklmn'' \<lparr>brackets = [\<lparr>ptr = 0, len = 2, branches = 0, num_branches = 0\<rparr>], branch_tab = []\<rparr> (Bar_loop 0 2 0 7 0 0 0) \<lparr>error_msg = Internal_error, caps = Some []\<rparr>
     = Some (0, \<lparr>error_msg = No_match, caps = Some []\<rparr>)"
proof -
  let ?I = "\<lparr>brackets = [\<lparr>ptr = 0, len = 2, branches = 0, num_branches = 0\<rparr>], branch_tab = []\<rparr>"
  let ?st = "\<lparr>error_msg = Internal_error, caps = None\<rparr>"
  let ?sc = "\<lparr>error_msg = Internal_error, caps = Some []\<rparr>"
  have lt: "(0::int) < 2" "(0::int) < 7" "(0::int) + 1 < 2"
    by simp_all
  have p: "is_quantifier ''p+'' (0 + 0) = Some False" "get_op_len ''p+'' (0 + 0) = Some 1"
      "re_at ''p+'' (0 + 0 + 1) = Some (CHR ''+'')" "quant_tail ''p+'' 0 2 0 1 = Some (False, 2)"
    by (simp_all add: is_quantifier_def get_op_len_def re_at_def quant_tail_def)
  have d: "is_quantifier ''.*'' (0 + 0) = Some False" "get_op_len ''.*'' (0 + 0) = Some 1"
      "re_at ''.*'' (0 + 0 + 1) = Some (CHR ''*'')" "quant_tail ''.*'' 0 2 0 1 = Some (False, 2)"
    by (simp_all add: is_quantifier_def get_op_len_def re_at_def quant_tail_def)
  have s: "is_quantifier ''p*'' (0 + 0) = Some False" "get_op_len ''p*'' (0 + 0) = Some 1"
      "re_at ''p*'' (0 + 0 + 1) = Some (CHR ''*'')" "quant_tail ''p*'' 0 2 0 1 = Some (False, 2)"
    by (simp_all add: is_quantifier_def get_op_len_def re_at_def quant_tail_def)
  have q: "CHR ''+'' = CHR ''+'' \<or> CHR ''+'' = CHR ''*''" "CHR ''*'' = CHR ''+'' \<or> CHR ''*'' = CHR ''*''"
    by simp_all
  have lp: "run ''p+'' ''fooklmn'' ?I (Quant_loop 0 2 0 7 0 0 1 2 False 0 0) ?st = Some (0, \<lparr>error_msg = No_match, caps = None\<rparr>)"
    by code_simp
  have ld: "run ''.*'' ''fooklmn'' ?I (Quant_loop 0 2 0 7 0 0 1 2 False 0 0) ?st = Some (7, \<lparr>error_msg = No_match, caps = None\<rparr>)"
    by code_simp
  have ls: "run ''p*'' ''fooklmn'' ?I (Quant_loop 0 2 0 7 0 0 1 2 False 0 0) ?sc
      = Some (0, \<lparr>error_msg = No_match, caps = Some []\<rparr>)"
    by code_simp
  from plus_fails_on_zero_star_returns_nj[OF lt(1,2) p(1,2) lt(3) p(3) q(1) p(4) lp]
       plus_fails_on_zero_star_returns_nj[OF lt(1,2) d(1,2) lt(3) d(3) q(2) d(4) ld]
       plus_fails_on_zero_star_returns_nj[OF lt(1,2) s(1,2) lt(3) s(3) q(2) s(4) ls]
  show ?thesis
    by simp
qed

section \<open>The range of the result\<close>

text \<open>
  C10. For every pattern and every subject the call of slre_match returns, reading
  nothing outside the pattern, the subject and the tables, and its result \<open>r\<close> satisfies
  \<open>0 \<le> r \<le> s_len\<close>. So a subject of length 0 gives 0, also for the patterns \<open>^\<close> and
  \<open>a*\<close>.
\<close>

theorem slre_match_result_in_range:
  "(\<exists>r st. slre_match pat subj cps = Some (r, st) \<and> 0 \<le> r \<and> r \<le> int (length subj))
   \<and> (\<exists>st. slre_match pat [] cps = Some (0, st))
   \<and> slre_result ''^'' [] = Some (0, No_match)
   \<and> slre_result ''a*'' [] = Some (0, No_match)"
proof -
  have "\<exists>st. slre_match pat [] cps = Some (0, st)"
    using slre_match_total[of pat "[]" cps] by auto
  moreover have "slre_result ''^'' [] = Some (0, No_match)"
    by code_simp
  moreover have "slre_result ''a*'' [] = Some (0, No_match)"
    by code_simp
  ultimately show ?thesis
    using slre_match_total[of pat subj cps] by simp
qed

section \<open>Unbalanced brackets\<close>

text \<open>
  C9. When the scan of a pattern comes to a \<open>)\<close> at which the depth counter goes
  negative, or comes to the end of the pattern with a depth counter that is not 0, the call
  returns 0 with the reason "Unbalanced brackets", whatever the subject. The pattern \<open>(\<close>
  is such a pattern.
\<close>

theorem unbalanced_brackets_rejected:
  assumes "scan_reaches pat (i, depth, info)"
    and "(i < int (length pat) \<and> re_at pat i = Some (CHR '')'') \<and> depth - 1 < 0)
          \<or> (int (length pat) \<le> i \<and> depth \<noteq> 0)"
  shows "slre_match pat subj cps = Some (0, \<lparr>error_msg = Unbalanced_brackets, caps = cps\<rparr>)
     \<and> slre_match ''('' subj cps = Some (0, \<lparr>error_msg = Unbalanced_brackets, caps = cps\<rparr>)"
  using unbalanced_rejected[OF assms] unbalanced_rejected[OF open_paren_reaches] by simp

theorem unbalanced_brackets_rejected_witness:
  "\<forall>subj cps. slre_match ''(x))'' subj cps
      = Some (0, \<lparr>error_msg = Unbalanced_brackets, caps = cps\<rparr>)"
proof (intro allI)
  fix subj cps
  have s1: "scan_next ''(x))'' 4 (0, 0, scan_init 4) (1, 1, \<lparr>brackets = [\<lparr>ptr = 0, len = 4, branches = 0, num_branches = 0\<rparr>, \<lparr>ptr = 1, len = - 1, branches = 0, num_branches = 0\<rparr>], branch_tab = []\<rparr>)"
    by code_simp
  have s2: "scan_next ''(x))'' 4 (1, 1, \<lparr>brackets = [\<lparr>ptr = 0, len = 4, branches = 0, num_branches = 0\<rparr>, \<lparr>ptr = 1, len = - 1, branches = 0, num_branches = 0\<rparr>], branch_tab = []\<rparr>) (2, 1, \<lparr>brackets = [\<lparr>ptr = 0, len = 4, branches = 0, num_branches = 0\<rparr>, \<lparr>ptr = 1, len = - 1, branches = 0, num_branches = 0\<rparr>], branch_tab = []\<rparr>)"
    by code_simp
  have s3: "scan_next ''(x))'' 4 (2, 1, \<lparr>brackets = [\<lparr>ptr = 0, len = 4, branches = 0, num_branches = 0\<rparr>, \<lparr>ptr = 1, len = - 1, branches = 0, num_branches = 0\<rparr>], branch_tab = []\<rparr>) (3, 0, \<lparr>brackets = [\<lparr>ptr = 0, len = 4, branches = 0, num_branches = 0\<rparr>, \<lparr>ptr = 1, len = 1, branches = 0, num_branches = 0\<rparr>], branch_tab = []\<rparr>)"
    by code_simp
  have r: "scan_reaches ''(x))'' (3, 0, \<lparr>brackets = [\<lparr>ptr = 0, len = 4, branches = 0, num_branches = 0\<rparr>, \<lparr>ptr = 1, len = 1, branches = 0, num_branches = 0\<rparr>], branch_tab = []\<rparr>)"
    unfolding scan_reaches_def using s1 s2 s3 by (simp add: rtranclp.rtrancl_into_rtrancl)
  have u: "((3::int) < int (length ''(x))'') \<and> re_at ''(x))'' 3 = Some (CHR '')'') \<and> (0::int) - 1 < 0)
      \<or> (int (length ''(x))'') \<le> (3::int) \<and> (0::int) \<noteq> 0)"
    by (simp add: re_at_def)
  from unbalanced_brackets_rejected[OF r u, of subj cps]
  show "slre_match ''(x))'' subj cps = Some (0, \<lparr>error_msg = Unbalanced_brackets, caps = cps\<rparr>)"
    by simp
qed

section \<open>The empty bracket pair\<close>

text \<open>
  C8. The claim: every pattern that contains \<open>()\<close> is rejected with the reason
  "No match", not "Unbalanced brackets". The scan stops at the first failure it meets, and
  in \<open>)()\<close> that is the \<open>)\<close> at offset 0.
\<close>

theorem empty_pair_after_unbalanced_counterexample:
  "slre_result '')()'' ''fooklmn'' = Some (0, Unbalanced_brackets)"
  by code_simp

text \<open>
  C8, as amended. A pattern with a \<open>(\<close> at offset \<open>k\<close> and a \<open>)\<close> at offset \<open>k + 1\<close> is
  rejected: the call returns 0 with a failure reason. The reason is "No match" when the
  scan comes to offset \<open>k\<close> without a failure and with fewer than \<open>MAX_BRACKETS\<close> bracket
  pairs recorded.
\<close>

theorem empty_pair_rejected_no_match:
  assumes "re_at pat k = Some (CHR ''('')" and "re_at pat (k + 1) = Some (CHR '')'')"
  shows "(\<exists>msg. slre_match pat subj cps = Some (0, \<lparr>error_msg = msg, caps = cps\<rparr>))
     \<and> ((\<exists>depth info. scan_reaches pat (k, depth, info) \<and> num_brackets info < MAX_BRACKETS)
          \<longrightarrow> slre_match pat subj cps = Some (0, \<lparr>error_msg = No_match, caps = cps\<rparr>))"
  using empty_pair_rejected[OF assms] empty_pair_no_match[OF assms] by blast

theorem empty_pair_rejected_no_match_witness:
  "\<forall>subj cps. slre_match ''a()b'' subj cps = Some (0, \<lparr>error_msg = No_match, caps = cps\<rparr>)"
proof (intro allI)
  fix subj cps
  have o: "re_at ''a()b'' 1 = Some (CHR ''('')" and c: "re_at ''a()b'' (1 + 1) = Some (CHR '')'')"
    by (simp_all add: re_at_def)
  have s1: "scan_next ''a()b'' 4 (0, 0, scan_init 4) (1, 0, scan_init 4)"
    by code_simp
  have r: "scan_reaches ''a()b'' (1, 0, scan_init 4)"
    unfolding scan_reaches_def using s1 by simp
  have n: "num_brackets (scan_init 4) < MAX_BRACKETS"
    by (simp add: num_brackets_def scan_init_def MAX_BRACKETS_def)
  from empty_pair_rejected_no_match[OF o c, of subj cps] r n
  show "slre_match ''a()b'' subj cps = Some (0, \<lparr>error_msg = No_match, caps = cps\<rparr>)"
    by blast
qed

end
